theory Spec2Isabelle
  imports Main
begin

section \<open>JavaScript containers\<close>

text \<open>
  A JavaScript \<open>Set\<close> and a \<open>Map\<close> iterate in insertion order, and
  \<open>calculatePeersToDownloadFrom\<close> depends on that order. A \<open>Set<string>\<close> is
  therefore a list of its elements in insertion order, a \<open>Map<string, V>\<close> the list
  of its entries in insertion order.
\<close>

type_synonym 'a jsset = "'a list"
type_synonym ('k, 'v) jsmap = "('k \<times> 'v) list"

definition Set_has :: "'a jsset \<Rightarrow> 'a \<Rightarrow> bool" where
  "Set_has s x = (x \<in> set s)"

text \<open>\<open>s.add(x)\<close>: an element that is already there keeps its position.\<close>

definition Set_add :: "'a jsset \<Rightarrow> 'a \<Rightarrow> 'a jsset" where
  "Set_add s x = (if Set_has s x then s else s @ [x])"

definition Set_delete :: "'a jsset \<Rightarrow> 'a \<Rightarrow> 'a jsset" where
  "Set_delete s x = filter (\<lambda>y. y \<noteq> x) s"

text \<open>\<open>new Set(iterable)\<close>: the elements are added one after the other.\<close>

definition Set_new :: "'a list \<Rightarrow> 'a jsset" where
  "Set_new xs = fold (\<lambda>x s. Set_add s x) xs []"

text \<open>
  \<open>a.intersection(b)\<close> walks the smaller of the two sets and keeps the elements
  the other one has; \<open>a.difference(b)\<close> is \<open>a\<close> without the elements of \<open>b\<close>,
  in the order of \<open>a\<close>.
\<close>

definition Set_intersection :: "'a jsset \<Rightarrow> 'a jsset \<Rightarrow> 'a jsset" where
  "Set_intersection a b =
     (if length a \<le> length b then filter (Set_has b) a else filter (Set_has a) b)"

definition Set_difference :: "'a jsset \<Rightarrow> 'a jsset \<Rightarrow> 'a jsset" where
  "Set_difference a b = filter (\<lambda>x. \<not> Set_has b x) a"

text \<open>\<open>Array.from(s)\<close> lists the elements in insertion order.\<close>

definition Array_from :: "'a jsset \<Rightarrow> 'a list" where
  "Array_from s = s"

definition Map_has :: "('k, 'v) jsmap \<Rightarrow> 'k \<Rightarrow> bool" where
  "Map_has m k = (k \<in> fst ` set m)"

definition Map_get :: "('k, 'v) jsmap \<Rightarrow> 'k \<Rightarrow> 'v option" where
  "Map_get m k = map_of m k"

text \<open>\<open>m.set(k, v)\<close>: an existing key keeps its position, a new one goes last.\<close>

primrec Map_set :: "('k, 'v) jsmap \<Rightarrow> 'k \<Rightarrow> 'v \<Rightarrow> ('k, 'v) jsmap" where
  "Map_set [] k v = [(k, v)]"
| "Map_set (e # m) k v = (if fst e = k then (k, v) # m else e # Map_set m k v)"

definition Map_delete :: "('k, 'v) jsmap \<Rightarrow> 'k \<Rightarrow> ('k, 'v) jsmap" where
  "Map_delete m k = filter (\<lambda>e. fst e \<noteq> k) m"

text \<open>\<open>new Map(entries)\<close> and \<open>Object.fromEntries(entries)\<close> set the entries in turn.\<close>

definition Map_new :: "('k \<times> 'v) list \<Rightarrow> ('k, 'v) jsmap" where
  "Map_new es = fold (\<lambda>e m. Map_set m (fst e) (snd e)) es []"

text \<open>
  \<open>getOrDefault(map, key, def)\<close> returns the value stored under \<open>key\<close>, storing
  \<open>def\<close> first when there is none. It is only called with \<open>Set\<close> values, which
  are objects and so never falsy: \<open>if (existing)\<close> tests presence. The result is
  the map after the call and the value, which in the source is a reference to the
  stored set; the callers below write the set back after \<open>add\<close>.
\<close>

definition getOrDefault :: "('k, 'v) jsmap \<Rightarrow> 'k \<Rightarrow> 'v \<Rightarrow> ('k, 'v) jsmap \<times> 'v" where
  "getOrDefault m k def =
     (case Map_get m k of
        Some existing \<Rightarrow> (m, existing)
      | None \<Rightarrow> (Map_set m k def, def))"

section \<open>The change graph\<close>

record PartialChange =
  hash :: string
  deps :: "string list"

record ChangeGraph =
  nodes :: "(string, string list) jsmap"
  missing :: "string jsset"
  heads :: "string jsset"

datatype AddChangeResult =
    new_head (removedHeads: "string list") (missingDeps: "string list")
  | already_exists
  | was_missing

definition empty_graph :: ChangeGraph where
  "empty_graph = \<lparr>nodes = [], missing = [], heads = []\<rparr>"

text \<open>
  The body of the \<open>forEach\<close> over the distinct dependencies of a new head. The
  state of the loop is the graph with the two arrays \<open>removedHeads\<close> and
  \<open>missingDeps\<close>.
\<close>

definition visit_dep ::
  "string \<Rightarrow> ChangeGraph \<times> string list \<times> string list \<Rightarrow> ChangeGraph \<times> string list \<times> string list"
where
  "visit_dep dep st =
     (case st of (g, removed, missingD) \<Rightarrow>
        let (g1, removed1) =
              (if Set_has (heads g) dep
               then (g\<lparr>heads := Set_delete (heads g) dep\<rparr>, removed @ [dep])
               else (g, removed))
        in if \<not> Map_has (nodes g1) dep
           then (g1\<lparr>missing := Set_add (missing g1) dep\<rparr>, removed1, missingD @ [dep])
           else (g1, removed1, missingD))"

definition addChange :: "ChangeGraph \<Rightarrow> PartialChange \<Rightarrow> AddChangeResult \<times> ChangeGraph" where
  "addChange g change =
     (if Map_has (nodes g) (hash change) then (already_exists, g)
      else
        let g1 = g\<lparr>nodes := Map_set (nodes g) (hash change) (deps change)\<rparr>
        in if Set_has (missing g1) (hash change)
           then (was_missing, g1\<lparr>missing := Set_delete (missing g1) (hash change)\<rparr>)
           else
             let g2 = g1\<lparr>heads := Set_add (heads g1) (hash change)\<rparr>;
                 (g3, removed, missingD) = fold visit_dep (Set_new (deps change)) (g2, [], [])
             in (new_head removed missingD, g3))"

inductive reachable_graph :: "ChangeGraph \<Rightarrow> bool" where
  start: "reachable_graph empty_graph"
| step: "reachable_graph g \<Longrightarrow> reachable_graph (snd (addChange g change))"

section \<open>The head syncer\<close>

text \<open>
  The in-memory state as the class declares it: \<open>headPeers\<close> maps a head to the
  set of peers known to have it. The storage object is passed to the operations that
  use it.
\<close>

record HeadSyncer =
  changes :: ChangeGraph
  headPeers :: "(string, string jsset) jsmap"

definition empty_syncer :: HeadSyncer where
  "empty_syncer = \<lparr>changes = empty_graph, headPeers = []\<rparr>"

text \<open>
  \<open>getOrDefault(this.headPeers, hash, new Set()).add(peer)\<close>: the set under
  \<open>hash\<close> is created when absent and \<open>peer\<close> is added to it in place.
\<close>

definition add_peer :: "(string, string jsset) jsmap \<Rightarrow> string \<Rightarrow> string \<Rightarrow> (string, string jsset) jsmap" where
  "add_peer hp h peer =
     (case getOrDefault hp h [] of (hp1, peers) \<Rightarrow> Map_set hp1 h (Set_add peers peer))"

text \<open>One round of the loop of \<open>ingestChanges\<close>.\<close>

definition ingestChange :: "string \<Rightarrow> PartialChange \<Rightarrow> HeadSyncer \<Rightarrow> HeadSyncer" where
  "ingestChange peer change s =
     (case addChange (changes s) change of (result, g) \<Rightarrow>
        (case result of
           new_head removed missingD \<Rightarrow>
             \<lparr>changes = g,
              headPeers = fold (\<lambda>r hp. Map_delete hp r) removed
                            (add_peer (headPeers s) (hash change) peer)\<rparr>
         | already_exists \<Rightarrow>
             if Set_has (heads g) (hash change)
             then \<lparr>changes = g, headPeers = add_peer (headPeers s) (hash change) peer\<rparr>
             else \<lparr>changes = g, headPeers = headPeers s\<rparr>
         | was_missing \<Rightarrow> \<lparr>changes = g, headPeers = headPeers s\<rparr>))"

text \<open>The whole loop: the summaries of the batch in the order given.\<close>

definition ingestBatch :: "string \<Rightarrow> PartialChange list \<Rightarrow> HeadSyncer \<Rightarrow> HeadSyncer" where
  "ingestBatch peer cs s = fold (ingestChange peer) cs s"

subsection \<open>Serialisation\<close>

text \<open>
  The plain objects of \<open>pojo()\<close>. An object with string keys is the list of its
  entries in the order they were set. (JavaScript lists keys that are canonical
  array indices first; this reordering is left out, and the properties below
  compare objects as maps.)
\<close>

record ChangeGraphPojo =
  pojo_nodes :: "(string \<times> string list) list"
  pojo_missing :: "string list"
  pojo_heads :: "string list"

record HeadSyncerPojo =
  pojo_changes :: ChangeGraphPojo
  pojo_headPeers :: "(string \<times> string list) list"

definition ChangeGraph_pojo :: "ChangeGraph \<Rightarrow> ChangeGraphPojo" where
  "ChangeGraph_pojo g =
     \<lparr>pojo_nodes = Map_new (nodes g),
      pojo_missing = Array_from (missing g),
      pojo_heads = Array_from (heads g)\<rparr>"

definition pojo :: "HeadSyncer \<Rightarrow> HeadSyncerPojo" where
  "pojo s =
     \<lparr>pojo_changes = ChangeGraph_pojo (changes s),
      pojo_headPeers = Map_new (map (\<lambda>(k, v). (k, Array_from v)) (headPeers s))\<rparr>"

text \<open>
  \<open>JSON.stringify\<close> of a value built from plain objects, arrays and strings, and
  \<open>JSON.parse\<close> of the text it gives: the text is represented by the value it
  denotes. \<open>Json p\<close> is the text of a snapshot in which every array of
  \<open>headPeers\<close> holds strings, as \<open>pojo()\<close> of a syncer with sets of peer names
  gives. \<open>JSON.stringify\<close> turns a \<open>Set\<close> into the empty object \<open>{}\<close>, so the
  snapshot of a syncer that holds an array of sets under some head has an array of
  empty objects there: \<open>JsonObjects\<close> is the text of such a snapshot, with the
  graph and, for every head, either the names or the number of empty objects.
\<close>

datatype json_peers =
    is_Names: Names (names: "string list")
  | EmptyObjects nat

datatype json =
    Json HeadSyncerPojo
  | JsonObjects ChangeGraphPojo "(string \<times> json_peers) list"

definition JSON_stringify :: "HeadSyncerPojo \<Rightarrow> json" where
  "JSON_stringify p = Json p"

text \<open>
  The storage is an object outside the syncer. \<open>save\<close> and \<open>load\<close> act on a
  storage state \<open>'w\<close> and either resolve or reject with an error \<open>'e\<close>;
  \<open>load\<close> resolves with \<open>undefined\<close> (\<open>None\<close>) when nothing was saved.
\<close>

record ('w, 'e) Storage =
  save :: "json \<Rightarrow> 'w \<Rightarrow> ('e + unit) \<times> 'w"
  load :: "'w \<Rightarrow> ('e + json option) \<times> 'w"

text \<open>The constructor of \<open>ChangeGraph\<close>, with and without a plain object.\<close>

definition ChangeGraph_new :: "ChangeGraphPojo option \<Rightarrow> ChangeGraph" where
  "ChangeGraph_new p =
     (case p of
        Some po \<Rightarrow> \<lparr>nodes = Map_new (pojo_nodes po),
                    missing = Set_new (pojo_missing po),
                    heads = Set_new (pojo_heads po)\<rparr>
      | None \<Rightarrow> \<lparr>nodes = [], missing = [], heads = []\<rparr>)"

text \<open>
  What \<open>HeadSyncer.init\<close> stores under a head is not the declared
  \<open>Set<string>\<close>: the array \<open>v\<close> of peer names is mapped with
  \<open>(x) => new Set(x)\<close>, so the value is an array with, for each peer name, the
  set of the characters of that name. \<open>peers_value\<close> tells the two shapes apart.
\<close>

datatype peers_value =
    PeerSet "string jsset"
  | SetArray "string jsset list"

record LoadedSyncer =
  loaded_changes :: ChangeGraph
  loaded_headPeers :: "(string, peers_value) jsmap"

text \<open>\<open>new Set(x)\<close> for a string \<open>x\<close> iterates over its characters.\<close>

definition Set_of_string :: "string \<Rightarrow> string jsset" where
  "Set_of_string x = Set_new (map (\<lambda>c. [c]) x)"

text \<open>
  What a call can throw: a \<open>TypeError\<close> of the engine, or the error a storage
  operation rejected with.
\<close>

datatype 'e thrown = TypeError | Rejected 'e

text \<open>
  \<open>v.map((x) => new Set(x))\<close> on one array of a parsed snapshot: a string gives
  the set of its characters; an empty object is not iterable, and \<open>new Set\<close>
  throws a \<open>TypeError\<close> (\<open>None\<close>).
\<close>

definition revive_peers :: "json_peers \<Rightarrow> peers_value option" where
  "revive_peers v =
     (case v of
        Names ns \<Rightarrow> Some (SetArray (map Set_of_string ns))
      | EmptyObjects n \<Rightarrow> if n = 0 then Some (SetArray []) else None)"

text \<open>
  \<open>HeadSyncer.init\<close>: a rejected \<open>load\<close> is passed on; otherwise the syncer
  is built from the parsed snapshot, or empty when there is none. (The text of a
  snapshot is never the empty string, so \<open>loaded ? ... : undefined\<close> tests
  presence.)
\<close>

definition init :: "('w, 'e) Storage \<Rightarrow> 'w \<Rightarrow> ('e thrown + LoadedSyncer) \<times> 'w" where
  "init storage w =
     (case load storage w of
        (Inl e, w1) \<Rightarrow> (Inl (Rejected e), w1)
      | (Inr loaded, w1) \<Rightarrow>
          (case loaded of
             None \<Rightarrow> (Inr \<lparr>loaded_changes = ChangeGraph_new None, loaded_headPeers = []\<rparr>, w1)
           | Some (Json p) \<Rightarrow>
               (Inr \<lparr>loaded_changes = ChangeGraph_new (Some (pojo_changes p)),
                     loaded_headPeers =
                       Map_new (map (\<lambda>(k, v). (k, SetArray (map Set_of_string v)))
                                    (pojo_headPeers p))\<rparr>,
                w1)
           | Some (JsonObjects g entries) \<Rightarrow>
               (case those (map (\<lambda>(k, v). map_option (Pair k) (revive_peers v)) entries) of
                  None \<Rightarrow> (Inl TypeError, w1)
                | Some es \<Rightarrow>
                    (Inr \<lparr>loaded_changes = ChangeGraph_new (Some g),
                          loaded_headPeers = Map_new es\<rparr>,
                     w1))))"

text \<open>
  Observational equality of an in-memory state and a loaded one: maps are compared
  as maps and sets as sets. A set of peer names and an array are different values.
\<close>

fun same_peers :: "peers_value \<Rightarrow> peers_value \<Rightarrow> bool" where
  "same_peers (PeerSet a) (PeerSet b) = (set a = set b)"
| "same_peers (SetArray a) (SetArray b) = (map set a = map set b)"
| "same_peers _ _ = False"

definition same_headPeers ::
  "(string, string jsset) jsmap \<Rightarrow> (string, peers_value) jsmap \<Rightarrow> bool" where
  "same_headPeers hp lhp =
     (fst ` set hp = fst ` set lhp \<and>
      (\<forall>k \<in> fst ` set hp.
         case (Map_get hp k, Map_get lhp k) of
           (Some v, Some w) \<Rightarrow> same_peers (PeerSet v) w
         | _ \<Rightarrow> False))"

definition same_state :: "HeadSyncer \<Rightarrow> LoadedSyncer \<Rightarrow> bool" where
  "same_state s l =
     (map_of (nodes (changes s)) = map_of (nodes (loaded_changes l)) \<and>
      set (heads (changes s)) = set (heads (loaded_changes l)) \<and>
      set (missing (changes s)) = set (missing (loaded_changes l)) \<and>
      same_headPeers (headPeers s) (loaded_headPeers l))"

subsection \<open>Ingestion with the snapshot\<close>

text \<open>
  \<open>ingestChanges\<close> on a syncer whose \<open>headPeers\<close> holds sets, as the class
  declares and as every syncer built from the empty one by ingestion does; there
  \<open>peers.add\<close> cannot throw. The method on the syncer that \<open>init\<close> returns
  follows below as \<open>ingestChanges_loaded\<close>.
\<close>

definition ingestChanges ::
  "('w, 'e) Storage \<Rightarrow> string \<Rightarrow> PartialChange list \<Rightarrow> HeadSyncer \<times> 'w \<Rightarrow> ('e + unit) \<times> HeadSyncer \<times> 'w"
where
  "ingestChanges storage peer cs sw =
     (case sw of (s, w) \<Rightarrow>
        let s1 = ingestBatch peer cs s;
            (r, w1) = save storage (JSON_stringify (pojo s1)) w
        in (r, s1, w1))"

inductive reachable :: "HeadSyncer \<Rightarrow> bool" where
  initial: "reachable empty_syncer"
| ingest: "reachable s \<Longrightarrow> reachable (ingestBatch peer cs s)"

subsection \<open>Ingestion into a loaded syncer\<close>

text \<open>
  The same method \<open>ingestChanges\<close>, run on the syncer that \<open>init\<close> returns,
  whose \<open>headPeers\<close> may hold arrays. \<open>getOrDefault\<close> returns whatever is stored
  under the hash; \<open>peers.add(peer)\<close> on an array throws a \<open>TypeError\<close>, since an
  array has no method \<open>add\<close> (\<open>None\<close>). The map is as it was then: a default is
  only stored when the hash has no entry, and the default is a set.
\<close>

definition add_peer_loaded ::
  "(string, peers_value) jsmap \<Rightarrow> string \<Rightarrow> string \<Rightarrow> (string, peers_value) jsmap option" where
  "add_peer_loaded hp h peer =
     (case getOrDefault hp h (PeerSet []) of (hp1, peers) \<Rightarrow>
        (case peers of
           PeerSet ps \<Rightarrow> Some (Map_set hp1 h (PeerSet (Set_add ps peer)))
         | SetArray a \<Rightarrow> None))"

text \<open>
  One round of the loop: \<open>Inr\<close> the syncer after the round, \<open>Inl\<close> the syncer
  at the moment the \<open>TypeError\<close> is thrown, with the change already in the graph.
\<close>

definition ingestChange_loaded ::
  "string \<Rightarrow> PartialChange \<Rightarrow> LoadedSyncer \<Rightarrow> LoadedSyncer + LoadedSyncer" where
  "ingestChange_loaded peer change l =
     (case addChange (loaded_changes l) change of (result, g) \<Rightarrow>
        (case result of
           new_head removed missingD \<Rightarrow>
             (case add_peer_loaded (loaded_headPeers l) (hash change) peer of
                None \<Rightarrow> Inl \<lparr>loaded_changes = g, loaded_headPeers = loaded_headPeers l\<rparr>
              | Some hp \<Rightarrow>
                  Inr \<lparr>loaded_changes = g,
                       loaded_headPeers = fold (\<lambda>r hp. Map_delete hp r) removed hp\<rparr>)
         | already_exists \<Rightarrow>
             if Set_has (heads g) (hash change)
             then (case add_peer_loaded (loaded_headPeers l) (hash change) peer of
                     None \<Rightarrow> Inl \<lparr>loaded_changes = g, loaded_headPeers = loaded_headPeers l\<rparr>
                   | Some hp \<Rightarrow> Inr \<lparr>loaded_changes = g, loaded_headPeers = hp\<rparr>)
             else Inr \<lparr>loaded_changes = g, loaded_headPeers = loaded_headPeers l\<rparr>
         | was_missing \<Rightarrow> Inr \<lparr>loaded_changes = g, loaded_headPeers = loaded_headPeers l\<rparr>))"

text \<open>The loop stops at the first round that throws.\<close>

fun ingestBatch_loaded ::
  "string \<Rightarrow> PartialChange list \<Rightarrow> LoadedSyncer \<Rightarrow> LoadedSyncer + LoadedSyncer" where
  "ingestBatch_loaded peer [] l = Inr l"
| "ingestBatch_loaded peer (c # cs) l =
     (case ingestChange_loaded peer c l of
        Inl l1 \<Rightarrow> Inl l1
      | Inr l1 \<Rightarrow> ingestBatch_loaded peer cs l1)"

text \<open>
  \<open>JSON.stringify(this.pojo())\<close> for a loaded syncer: \<open>Array.from\<close> of a set
  lists its names, \<open>Array.from\<close> of an array of sets is that array, and each of
  its sets is written as \<open>{}\<close>.
\<close>

definition peers_json :: "peers_value \<Rightarrow> json_peers" where
  "peers_json v =
     (case v of
        PeerSet ps \<Rightarrow> Names (Array_from ps)
      | SetArray a \<Rightarrow> if a = [] then Names [] else EmptyObjects (length a))"

definition snapshot_loaded :: "LoadedSyncer \<Rightarrow> json" where
  "snapshot_loaded l =
     (let entries = Map_new (map (\<lambda>(k, v). (k, peers_json v)) (loaded_headPeers l))
      in if list_all (\<lambda>e. is_Names (snd e)) entries
         then Json \<lparr>pojo_changes = ChangeGraph_pojo (loaded_changes l),
                    pojo_headPeers = map (\<lambda>(k, v). (k, names v)) entries\<rparr>
         else JsonObjects (ChangeGraph_pojo (loaded_changes l)) entries)"

text \<open>
  The call: when the loop throws, the error leaves the method before the line that
  saves; otherwise the snapshot is saved and a rejection is passed on.
\<close>

definition ingestChanges_loaded ::
  "('w, 'e) Storage \<Rightarrow> string \<Rightarrow> PartialChange list \<Rightarrow> LoadedSyncer \<times> 'w
     \<Rightarrow> ('e thrown + unit) \<times> LoadedSyncer \<times> 'w"
where
  "ingestChanges_loaded storage peer cs lw =
     (case lw of (l, w) \<Rightarrow>
        (case ingestBatch_loaded peer cs l of
           Inl l1 \<Rightarrow> (Inl TypeError, l1, w)
         | Inr l1 \<Rightarrow>
             (case save storage (snapshot_loaded l1) w of
                (Inl e, w1) \<Rightarrow> (Inl (Rejected e), l1, w1)
              | (Inr u, w1) \<Rightarrow> (Inr u, l1, w1))))"

text \<open>A syncer with sets of peer names, seen as a loaded syncer.\<close>

definition as_loaded :: "HeadSyncer \<Rightarrow> LoadedSyncer" where
  "as_loaded s =
     \<lparr>loaded_changes = changes s,
      loaded_headPeers = map (\<lambda>(k, v). (k, PeerSet v)) (headPeers s)\<rparr>"

subsection \<open>Choosing the peers to download from\<close>

datatype error = NoPeerWithHeads
  \<comment> \<open>\<open>throw "Error in calculatePeersToDownloadFrom() algorithm: didn't find any peer with heads."\<close>\<close>

text \<open>The inverted index: for every peer, the heads it is recorded under.\<close>

definition add_head :: "string \<Rightarrow> string \<Rightarrow> (string, string jsset) jsmap \<Rightarrow> (string, string jsset) jsmap" where
  "add_head head peer ph =
     (case getOrDefault ph peer [] of (ph1, hs) \<Rightarrow> Map_set ph1 peer (Set_add hs head))"

definition peerHeads_of :: "(string, string jsset) jsmap \<Rightarrow> (string, string jsset) jsmap" where
  "peerHeads_of hp = fold (\<lambda>(head, peers) ph. fold (add_head head) peers ph) hp []"

text \<open>
  The scan over all peers: \<open>peerWithMostHeads\<close> is replaced only by a peer whose
  intersection is strictly larger, \<open>undefined\<close> counting as size 0.
\<close>

definition try_peer ::
  "string jsset \<Rightarrow> string \<times> string jsset \<Rightarrow> (string \<times> string jsset) option \<Rightarrow> (string \<times> string jsset) option"
where
  "try_peer headsRemaining e best =
     (let intersection = Set_intersection (snd e) headsRemaining
      in if length intersection > (case best of None \<Rightarrow> 0 | Some b \<Rightarrow> length (snd b))
         then Some (fst e, intersection) else best)"

definition peerWithMostHeads ::
  "(string, string jsset) jsmap \<Rightarrow> string jsset \<Rightarrow> (string \<times> string jsset) option" where
  "peerWithMostHeads peerHeads headsRemaining = fold (try_peer headsRemaining) peerHeads None"

text \<open>
  The \<open>while\<close> loop. Every round either throws or takes at least one head out of
  \<open>headsRemaining\<close>, so the loop ends.
\<close>

function select_peers ::
  "(string, string jsset) jsmap \<Rightarrow> string jsset \<Rightarrow> string list \<Rightarrow> error + string list" where
  "select_peers peerHeads headsRemaining peersToSync =
     (if length headsRemaining > 0
      then (case peerWithMostHeads peerHeads headsRemaining of
              None \<Rightarrow> Inl NoPeerWithHeads
            | Some best \<Rightarrow>
                select_peers peerHeads (Set_difference headsRemaining (snd best))
                  (peersToSync @ [fst best]))
      else Inr peersToSync)"
  by pat_completeness auto
termination
proof (relation "measure (\<lambda>(ph, r, acc). length r)")
  show "wf (measure (\<lambda>(ph, r, acc). length r))" by simp
next
  fix peerHeads :: "(string, string jsset) jsmap" and headsRemaining peersToSync best
  assume best: "peerWithMostHeads peerHeads headsRemaining = Some best"
  have scan: "fold (try_peer R) ph acc = Some b \<Longrightarrow>
      acc = Some b \<or> (snd b \<noteq> [] \<and> set (snd b) \<subseteq> set R)" for R ph acc b
  proof (induction ph arbitrary: acc)
    case Nil
    then show ?case by simp
  next
    case (Cons e ph)
    from Cons.IH[of "try_peer R e acc"] Cons.prems show ?case
      by (auto simp: try_peer_def Let_def Set_intersection_def Set_has_def split: if_splits)
  qed
  from scan[of headsRemaining peerHeads None best] best
  obtain x where x: "x \<in> set (snd best)" "x \<in> set headsRemaining"
    by (cases "snd best") (auto simp: peerWithMostHeads_def)
  then have "length (Set_difference headsRemaining (snd best)) < length headsRemaining"
    unfolding Set_difference_def by (intro length_filter_less[of x]) (auto simp: Set_has_def)
  then show "((peerHeads, Set_difference headsRemaining (snd best), peersToSync @ [fst best]),
              peerHeads, headsRemaining, peersToSync) \<in> measure (\<lambda>(ph, r, acc). length r)"
    by simp
qed

declare select_peers.simps [simp del]

definition calculatePeersToDownloadFrom :: "HeadSyncer \<Rightarrow> error + string list" where
  "calculatePeersToDownloadFrom s =
     select_peers (peerHeads_of (headPeers s)) (Set_new (heads (changes s))) []"

section \<open>Notions used in the properties\<close>

text \<open>A hash is listed as a dependency when some node has it among its \<open>deps\<close>.\<close>

definition listed_as_dep :: "ChangeGraph \<Rightarrow> string \<Rightarrow> bool" where
  "listed_as_dep g h = (\<exists>e \<in> set (nodes g). h \<in> set (snd e))"

text \<open>The heads a peer is recorded under in \<open>headPeers\<close>.\<close>

definition attributedHeads :: "(string, string jsset) jsmap \<Rightarrow> string \<Rightarrow> string set" where
  "attributedHeads hp peer = set (map fst (filter (\<lambda>e. peer \<in> set (snd e)) hp))"

text \<open>
  The greedy rule for one choice: among the peers of \<open>peerHeads\<close>, in the order of
  that map, \<open>p\<close> with its heads \<open>hs\<close> covers at least one remaining head, no peer
  covers more of them, and every peer before \<open>p\<close> covers fewer.
\<close>

definition is_best :: "(string, string jsset) jsmap \<Rightarrow> string list \<Rightarrow> string \<Rightarrow> string jsset \<Rightarrow> bool" where
  "is_best ph R p hs =
     (let n = card (set hs \<inter> set R)
      in 0 < n \<and>
         (\<forall>e \<in> set ph. card (set (snd e) \<inter> set R) \<le> n) \<and>
         (\<forall>e \<in> set (takeWhile (\<lambda>e. fst e \<noteq> p) ph). card (set (snd e) \<inter> set R) < n))"

text \<open>
  A sequence of peers is a greedy run from the remaining heads \<open>R\<close> when each peer
  is the best one at its turn, its heads are then taken out of \<open>R\<close>, and nothing
  remains at the end.
\<close>

fun greedy_run :: "(string, string jsset) jsmap \<Rightarrow> string list \<Rightarrow> string list \<Rightarrow> bool" where
  "greedy_run ph R [] = (R = [])"
| "greedy_run ph R (p # ps) =
     (case Map_get ph p of
        None \<Rightarrow> False
      | Some hs \<Rightarrow> R \<noteq> [] \<and> is_best ph R p hs \<and> greedy_run ph (filter (\<lambda>h. h \<notin> set hs) R) ps)"

text \<open>
  A storage that records every snapshot saved and loads the last one; one that
  keeps only the last snapshot, like the one of the repository's test; and one that
  records every snapshot it is given and rejects each save.
\<close>

definition recording_storage :: "(json list, string) Storage" where
  "recording_storage =
     \<lparr>save = (\<lambda>data w. (Inr (), w @ [data])),
      load = (\<lambda>w. (Inr (if w = [] then None else Some (last w)), w))\<rparr>"

definition memory_storage :: "(json option, string) Storage" where
  "memory_storage =
     \<lparr>save = (\<lambda>data w. (Inr (), Some data)),
      load = (\<lambda>w. (Inr w, w))\<rparr>"


definition failing_storage :: "(json list, string) Storage" where
  "failing_storage =
     \<lparr>save = (\<lambda>data w. (Inl ''disk full'', w @ [data])),
      load = (\<lambda>w. (Inr None, w))\<rparr>"

text \<open>
  Every head has an entry in \<open>headPeers\<close> with at least one peer; and the heads
  that a list of peers is recorded under, taken together.
\<close>

definition every_head_attributed :: "HeadSyncer \<Rightarrow> bool" where
  "every_head_attributed s =
     (\<forall>h \<in> set (heads (changes s)). \<exists>e \<in> set (headPeers s). fst e = h \<and> snd e \<noteq> [])"

definition covered_heads :: "(string, string jsset) jsmap \<Rightarrow> string list \<Rightarrow> string set" where
  "covered_heads hp ps = (\<Union>p \<in> set ps. attributedHeads hp p)"

text \<open>The set stored for a peer in the inverted index, empty when there is none.\<close>

definition peer_heads :: "(string, string jsset) jsmap \<Rightarrow> string \<Rightarrow> string set" where
  "peer_heads ph p = (case Map_get ph p of None \<Rightarrow> {} | Some hs \<Rightarrow> set hs)"

section \<open>Facts about the containers\<close>

lemma set_Set_add [simp]: "set (Set_add s x) = insert x (set s)"
  by (auto simp: Set_add_def Set_has_def)

lemma set_Set_delete [simp]: "set (Set_delete s x) = set s - {x}"
  by (auto simp: Set_delete_def)

lemma distinct_Set_add [simp]: "distinct s \<Longrightarrow> distinct (Set_add s x)"
  by (simp add: Set_add_def Set_has_def)

lemma distinct_Set_delete [simp]: "distinct s \<Longrightarrow> distinct (Set_delete s x)"
  by (simp add: Set_delete_def)

lemma fold_Set_add_set: "set (fold (\<lambda>x s. Set_add s x) xs acc) = set acc \<union> set xs"
  by (induction xs arbitrary: acc) auto

lemma fold_Set_add_distinct: "distinct acc \<Longrightarrow> distinct (fold (\<lambda>x s. Set_add s x) xs acc)"
  by (induction xs arbitrary: acc) auto

lemma set_Set_new [simp]: "set (Set_new xs) = set xs"
  by (simp add: Set_new_def fold_Set_add_set)

lemma distinct_Set_new [simp]: "distinct (Set_new xs)"
  by (simp add: Set_new_def fold_Set_add_distinct)

lemma keys_Map_set [simp]: "fst ` set (Map_set m k v) = insert k (fst ` set m)"
  by (induction m) auto

lemma map_of_Map_set [simp]: "map_of (Map_set m k v) = (map_of m)(k \<mapsto> v)"
  by (induction m) (auto simp: fun_eq_iff)

lemma distinct_Map_set [simp]: "distinct (map fst m) \<Longrightarrow> distinct (map fst (Map_set m k v))"
  by (induction m) auto

lemma Map_set_same: "map_of m k = Some v \<Longrightarrow> Map_set m k v = m"
  by (induction m) (auto split: if_splits)

lemma keys_Map_delete [simp]: "fst ` set (Map_delete m k) = fst ` set m - {k}"
  by (auto simp: Map_delete_def)

lemma map_of_Map_delete [simp]: "map_of (Map_delete m k) = (map_of m)(k := None)"
  by (induction m) (auto simp: Map_delete_def fun_eq_iff)

lemma distinct_Map_delete [simp]: "distinct (map fst m) \<Longrightarrow> distinct (map fst (Map_delete m k))"
  by (simp add: Map_delete_def distinct_map_filter)

lemma set_Set_intersection [simp]: "set (Set_intersection a b) = set a \<inter> set b"
  by (auto simp: Set_intersection_def Set_has_def)

lemma set_Set_difference [simp]: "set (Set_difference a b) = set a - set b"
  by (auto simp: Set_difference_def Set_has_def)

lemma distinct_Set_difference [simp]: "distinct a \<Longrightarrow> distinct (Set_difference a b)"
  by (simp add: Set_difference_def)

lemma distinct_Set_intersection [simp]:
  "distinct a \<Longrightarrow> distinct b \<Longrightarrow> distinct (Set_intersection a b)"
  by (simp add: Set_intersection_def)

section \<open>addChange, case by case\<close>

text \<open>
  The loop over the distinct dependencies in closed form: the heads among them are
  taken out of \<open>heads\<close> and those that are no node are added to \<open>missing\<close>.
\<close>

lemma fold_visit_dep:
  assumes "distinct ds"
  shows "fold visit_dep ds (g, rh, md) =
     (g\<lparr>heads := filter (\<lambda>h. h \<notin> set ds) (heads g),
        missing := fold (\<lambda>x s. Set_add s x) (filter (\<lambda>d. \<not> Map_has (nodes g) d) ds) (missing g)\<rparr>,
      rh @ filter (\<lambda>d. d \<in> set (heads g)) ds,
      md @ filter (\<lambda>d. \<not> Map_has (nodes g) d) ds)"
  using assms
proof (induction ds arbitrary: g rh md)
  case Nil
  then show ?case by simp
next
  case (Cons d ds)
  have d: "d \<notin> set ds" and dist: "distinct ds" using Cons.prems by auto
  have f1: "filter (\<lambda>x. x \<in> set (Set_delete (heads g) d)) ds = filter (\<lambda>x. x \<in> set (heads g)) ds"
    using d by (intro filter_cong) auto
  have f2: "filter (\<lambda>h. h \<notin> set ds) (Set_delete (heads g) d) = filter (\<lambda>h. h \<noteq> d \<and> h \<notin> set ds) (heads g)"
    by (auto simp: Set_delete_def intro: filter_cong)
  have f3: "d \<notin> set (heads g) \<Longrightarrow> filter (\<lambda>h. h \<notin> set ds) (heads g) = filter (\<lambda>h. h \<noteq> d \<and> h \<notin> set ds) (heads g)"
    by (intro filter_cong) auto
  show ?case
    using Cons.IH[OF dist] f1 f2 f3
    by (simp add: visit_dep_def Set_has_def Let_def)
qed

lemma addChange_exists:
  "Map_has (nodes g) (hash c) \<Longrightarrow> addChange g c = (already_exists, g)"
  by (simp add: addChange_def)

lemma addChange_missing:
  "\<not> Map_has (nodes g) (hash c) \<Longrightarrow> Set_has (missing g) (hash c) \<Longrightarrow>
   addChange g c =
     (was_missing, g\<lparr>nodes := Map_set (nodes g) (hash c) (deps c),
                      missing := Set_delete (missing g) (hash c)\<rparr>)"
  by (simp add: addChange_def Let_def)

lemma addChange_new:
  assumes "\<not> Map_has (nodes g) (hash c)" "\<not> Set_has (missing g) (hash c)"
  shows "addChange g c =
     (new_head (filter (\<lambda>d. d \<in> set (Set_add (heads g) (hash c))) (Set_new (deps c)))
               (filter (\<lambda>d. \<not> Map_has (Map_set (nodes g) (hash c) (deps c)) d) (Set_new (deps c))),
      \<lparr>nodes = Map_set (nodes g) (hash c) (deps c),
       missing = fold (\<lambda>x s. Set_add s x)
                   (filter (\<lambda>d. \<not> Map_has (Map_set (nodes g) (hash c) (deps c)) d) (Set_new (deps c)))
                   (missing g),
       heads = filter (\<lambda>h. h \<notin> set (deps c)) (Set_add (heads g) (hash c))\<rparr>)"
  using assms by (simp add: addChange_def Let_def fold_visit_dep)

text \<open>
  C7. \<open>addChange\<close> of a summary whose hash is neither a key of \<open>nodes\<close> nor in
  \<open>missing\<close> returns \<open>new_head\<close> and stores the hash in \<open>nodes\<close> with its deps.
  The hash is added to \<open>heads\<close>; then every dependency that is in \<open>heads\<close> at
  that moment is taken out of \<open>heads\<close> and listed, once, in \<open>removedHeads\<close>, and
  every dependency that is not a key of \<open>nodes\<close> is put into \<open>missing\<close> and
  listed, once, in \<open>missingDeps\<close>. A summary that names its own hash among its deps
  is covered: the hash is a head when the deps are visited, so it is removed again.
\<close>

theorem addChange_new_head:
  assumes "\<not> Map_has (nodes g) (hash c)" and "\<not> Set_has (missing g) (hash c)"
  shows "\<exists>removed missingD g'.
           addChange g c = (new_head removed missingD, g') \<and>
           map_of (nodes g') = (map_of (nodes g))(hash c \<mapsto> deps c) \<and>
           set (heads g') = insert (hash c) (set (heads g)) - set (deps c) \<and>
           set removed = set (deps c) \<inter> insert (hash c) (set (heads g)) \<and>
           distinct removed \<and>
           set missingD = {d \<in> set (deps c). \<not> Map_has (nodes g') d} \<and>
           distinct missingD \<and>
           set (missing g') = set (missing g) \<union> set missingD"
  unfolding addChange_new[OF assms]
  by (intro exI conjI, rule refl) (auto simp: fold_Set_add_set Map_has_def)

theorem addChange_new_head_witness:
  "\<not> Map_has (nodes \<lparr>nodes = [(''a'', [])], missing = [], heads = [''a'']\<rparr>) ''b'' \<and>
   \<not> Set_has (missing \<lparr>nodes = [(''a'', [])], missing = [], heads = [''a'']\<rparr>) ''b'' \<and>
   addChange \<lparr>nodes = [(''a'', [])], missing = [], heads = [''a'']\<rparr>
             \<lparr>hash = ''b'', deps = [''a'', ''x'', ''a'']\<rparr>
     = (new_head [''a''] [''x''],
        \<lparr>nodes = [(''a'', []), (''b'', [''a'', ''x'', ''a''])], missing = [''x''], heads = [''b'']\<rparr>)"
  using addChange_new_head[of "\<lparr>nodes = [(''a'', [])], missing = [], heads = [''a'']\<rparr>"
                              "\<lparr>hash = ''b'', deps = [''a'', ''x'', ''a'']\<rparr>"]
  by (simp add: addChange_def Map_has_def Set_has_def Set_add_def Set_new_def Set_delete_def
                visit_dep_def Let_def)

text \<open>
  C6. From the empty graph, \<open>addChange\<close> of \<open>B\<close> with deps \<open>[A]\<close>, where \<open>A\<close>
  is another hash that has not been ingested, leaves \<open>A\<close> in \<open>missing\<close> and \<open>B\<close>
  in \<open>heads\<close>. \<open>addChange\<close> of \<open>A\<close> with no deps then answers \<open>was_missing\<close>,
  and afterwards \<open>A\<close> is neither in \<open>missing\<close> nor in \<open>heads\<close>.
\<close>

theorem missing_then_filled:
  assumes "A \<noteq> B"
  shows "case addChange empty_graph \<lparr>hash = B, deps = [A]\<rparr> of (r1, g1) \<Rightarrow>
           Set_has (missing g1) A \<and> Set_has (heads g1) B \<and>
           (case addChange g1 \<lparr>hash = A, deps = []\<rparr> of (r2, g2) \<Rightarrow>
              r2 = was_missing \<and> \<not> Set_has (missing g2) A \<and> \<not> Set_has (heads g2) A)"
  using assms
  by (simp add: addChange_def empty_graph_def Map_has_def Set_has_def Set_add_def Set_new_def
                Set_delete_def visit_dep_def Let_def)

theorem missing_then_filled_witness:
  "''A'' \<noteq> ''B'' \<and>
   addChange empty_graph \<lparr>hash = ''B'', deps = [''A'']\<rparr> =
     (new_head [] [''A''], \<lparr>nodes = [(''B'', [''A''])], missing = [''A''], heads = [''B'']\<rparr>) \<and>
   addChange \<lparr>nodes = [(''B'', [''A''])], missing = [''A''], heads = [''B'']\<rparr> \<lparr>hash = ''A'', deps = []\<rparr> =
     (was_missing, \<lparr>nodes = [(''B'', [''A'']), (''A'', [])], missing = [], heads = [''B'']\<rparr>)"
  using missing_then_filled[of "''A''" "''B''"]
  by (simp add: addChange_def empty_graph_def Map_has_def Set_has_def Set_add_def Set_new_def
                Set_delete_def visit_dep_def Let_def)

section \<open>The selection loop: the two ways out\<close>

text \<open>
  C10. When \<open>heads\<close> is empty, \<open>calculatePeersToDownloadFrom\<close> returns the empty
  sequence and does not raise, whatever \<open>headPeers\<close> holds.
\<close>

theorem no_heads_no_peers:
  assumes "heads (changes s) = []"
  shows "calculatePeersToDownloadFrom s = Inr []"
  using assms by (simp add: calculatePeersToDownloadFrom_def Set_new_def select_peers.simps)

theorem no_heads_no_peers_witness:
  "heads (changes \<lparr>changes = \<lparr>nodes = [(''a'', [''a''])], missing = [], heads = []\<rparr>,
                   headPeers = [(''zz'', [''p1'', ''p2''])]\<rparr>) = [] \<and>
   calculatePeersToDownloadFrom
     \<lparr>changes = \<lparr>nodes = [(''a'', [''a''])], missing = [], heads = []\<rparr>,
      headPeers = [(''zz'', [''p1'', ''p2''])]\<rparr> = Inr []"
  using no_heads_no_peers[of "\<lparr>changes = \<lparr>nodes = [(''a'', [''a''])], missing = [], heads = []\<rparr>,
                               headPeers = [(''zz'', [''p1'', ''p2''])]\<rparr>"]
  by simp

lemma fold_try_peer_empty:
  assumes "\<forall>e \<in> set ph. set (snd e) \<inter> set R = {}"
  shows "fold (try_peer R) ph None = None"
  using assms
proof (induction ph)
  case Nil
  then show ?case by simp
next
  case (Cons e ph)
  then have "set (Set_intersection (snd e) R) = {}"
    by simp
  then have "Set_intersection (snd e) R = []"
    by (simp only: set_empty)
  then have "try_peer R e None = None"
    by (simp add: try_peer_def)
  with Cons show ?case by simp
qed

text \<open>
  C8. In a round of the loop of \<open>calculatePeersToDownloadFrom\<close> in which heads
  remain and no peer of \<open>peerHeads\<close> has any of them, the operation raises its
  internal error; it does not return the peers chosen so far.
\<close>

theorem uncovered_heads_raise:
  assumes "headsRemaining \<noteq> []"
    and "\<forall>e \<in> set peerHeads. set (snd e) \<inter> set headsRemaining = {}"
  shows "select_peers peerHeads headsRemaining peersToSync = Inl NoPeerWithHeads"
  using assms by (simp add: select_peers.simps peerWithMostHeads_def fold_try_peer_empty)

theorem uncovered_heads_raise_witness:
  "(set [''a'', ''b''] \<inter> set [''c''] = ({} :: string set)) \<and>
   select_peers [(''p'', [''a'', ''b''])] [''c''] [''p''] = Inl NoPeerWithHeads \<and>
   calculatePeersToDownloadFrom
     \<lparr>changes = \<lparr>nodes = [], missing = [], heads = [''a'', ''b'', ''c'']\<rparr>,
      headPeers = [(''a'', [''p'']), (''b'', [''p''])]\<rparr> = Inl NoPeerWithHeads"
  using uncovered_heads_raise[of "[''c'']" "[(''p'', [''a'', ''b''])]" "[''p'']"]
  by (simp add: calculatePeersToDownloadFrom_def peerHeads_of_def add_head_def getOrDefault_def
        Map_get_def Set_new_def Set_add_def Set_has_def peerWithMostHeads_def try_peer_def
        Set_intersection_def Set_difference_def Let_def select_peers.simps)

section \<open>Ingestion keeps the index of the heads\<close>

lemma map_of_add_peer:
  "map_of (add_peer hp h peer) =
     (map_of hp)(h \<mapsto> Set_add (case map_of hp h of None \<Rightarrow> [] | Some ps \<Rightarrow> ps) peer)"
  by (auto simp: add_peer_def getOrDefault_def Map_get_def split: option.splits)

lemma keys_add_peer [simp]: "fst ` set (add_peer hp h peer) = insert h (fst ` set hp)"
  by (auto simp: add_peer_def getOrDefault_def split: option.splits)

lemma add_peer_same:
  assumes "map_of hp h = Some ps" "peer \<in> set ps"
  shows "add_peer hp h peer = hp"
  using assms by (simp add: add_peer_def getOrDefault_def Map_get_def Set_add_def Set_has_def Map_set_same)

lemma keys_fold_Map_delete [simp]:
  "fst ` set (fold (\<lambda>r hp. Map_delete hp r) rs hp) = fst ` set hp - set rs"
  by (induction rs arbitrary: hp) auto

lemma map_of_fold_Map_delete:
  "map_of (fold (\<lambda>r hp. Map_delete hp r) rs hp) k = (if k \<in> set rs then None else map_of hp k)"
  by (induction rs arbitrary: hp) auto

text \<open>The four ways a round of the loop of \<open>ingestChanges\<close> can go.\<close>

lemma ingestChange_exists_head:
  assumes "Map_has (nodes (changes s)) (hash c)" "Set_has (heads (changes s)) (hash c)"
  shows "ingestChange peer c s = s\<lparr>headPeers := add_peer (headPeers s) (hash c) peer\<rparr>"
  using assms by (simp add: ingestChange_def addChange_exists)

lemma ingestChange_exists_other:
  assumes "Map_has (nodes (changes s)) (hash c)" "\<not> Set_has (heads (changes s)) (hash c)"
  shows "ingestChange peer c s = s"
  using assms by (simp add: ingestChange_def addChange_exists)

lemma ingestChange_missing:
  assumes "\<not> Map_has (nodes (changes s)) (hash c)" "Set_has (missing (changes s)) (hash c)"
  shows "ingestChange peer c s =
     s\<lparr>changes := (changes s)\<lparr>nodes := Map_set (nodes (changes s)) (hash c) (deps c),
                               missing := Set_delete (missing (changes s)) (hash c)\<rparr>\<rparr>"
  using assms by (simp add: ingestChange_def addChange_missing)

lemma ingestChange_new:
  assumes "\<not> Map_has (nodes (changes s)) (hash c)" "\<not> Set_has (missing (changes s)) (hash c)"
  shows "ingestChange peer c s =
     \<lparr>changes = snd (addChange (changes s) c),
      headPeers = fold (\<lambda>r hp. Map_delete hp r)
                    (filter (\<lambda>d. d \<in> set (Set_add (heads (changes s)) (hash c))) (Set_new (deps c)))
                    (add_peer (headPeers s) (hash c) peer)\<rparr>"
  using assms by (simp add: ingestChange_def addChange_new)

lemma ingestChange_cases:
  obtains
    (exists_head) "Map_has (nodes (changes s)) (hash c)" "Set_has (heads (changes s)) (hash c)"
  | (exists_other) "Map_has (nodes (changes s)) (hash c)" "\<not> Set_has (heads (changes s)) (hash c)"
  | (missing) "\<not> Map_has (nodes (changes s)) (hash c)" "Set_has (missing (changes s)) (hash c)"
  | (new) "\<not> Map_has (nodes (changes s)) (hash c)" "\<not> Set_has (missing (changes s)) (hash c)"
  by blast

lemma addChange_heads_known:
  assumes "set (heads g) \<subseteq> fst ` set (nodes g)"
  shows "set (heads (snd (addChange g c))) \<subseteq> fst ` set (nodes (snd (addChange g c)))"
proof (cases "Map_has (nodes g) (hash c)")
  case True
  then show ?thesis using assms by (simp add: addChange_exists)
next
  case False
  show ?thesis
  proof (cases "Set_has (missing g) (hash c)")
    case True
    with False assms show ?thesis by (auto simp: addChange_missing)
  next
    case no: False
    with False assms show ?thesis by (auto simp: addChange_new)
  qed
qed

lemma ingestChange_changes: "changes (ingestChange peer c s) = snd (addChange (changes s) c)"
  by (auto simp: ingestChange_def split: prod.splits AddChangeResult.splits)

lemma ingestChange_heads_known:
  assumes "set (heads (changes s)) \<subseteq> fst ` set (nodes (changes s))"
  shows "set (heads (changes (ingestChange peer c s)))
           \<subseteq> fst ` set (nodes (changes (ingestChange peer c s)))"
  using assms by (simp add: ingestChange_changes addChange_heads_known)

lemma ingestChange_keys:
  assumes "fst ` set (headPeers s) = set (heads (changes s))"
  shows "fst ` set (headPeers (ingestChange peer c s)) = set (heads (changes (ingestChange peer c s)))"
proof (cases rule: ingestChange_cases[of s c])
  case exists_head
  then show ?thesis using assms by (auto simp: ingestChange_exists_head Set_has_def)
next
  case exists_other
  then show ?thesis using assms by (simp add: ingestChange_exists_other)
next
  case missing
  then show ?thesis using assms by (simp add: ingestChange_missing)
next
  case new
  then show ?thesis using assms by (auto simp: ingestChange_new addChange_new)
qed

lemma ingestBatch_keys:
  assumes "fst ` set (headPeers s) = set (heads (changes s))"
  shows "fst ` set (headPeers (ingestBatch peer cs s)) = set (heads (changes (ingestBatch peer cs s)))"
  using assms unfolding ingestBatch_def
  by (induction cs arbitrary: s) (simp_all add: ingestChange_keys)

lemma ingestBatch_heads_known:
  assumes "set (heads (changes s)) \<subseteq> fst ` set (nodes (changes s))"
  shows "set (heads (changes (ingestBatch peer cs s)))
           \<subseteq> fst ` set (nodes (changes (ingestBatch peer cs s)))"
  using assms unfolding ingestBatch_def
  by (induction cs arbitrary: s) (simp_all add: ingestChange_heads_known)

lemma reachable_keys: "reachable s \<Longrightarrow> fst ` set (headPeers s) = set (heads (changes s))"
  by (induction rule: reachable.induct)
     (simp_all add: empty_syncer_def empty_graph_def ingestBatch_keys)

lemma reachable_heads_known:
  "reachable s \<Longrightarrow> set (heads (changes s)) \<subseteq> fst ` set (nodes (changes s))"
  by (induction rule: reachable.induct)
     (simp_all add: empty_syncer_def empty_graph_def ingestBatch_heads_known)

text \<open>
  C3. In every state reachable from the empty one, after a call of
  \<open>ingestChanges\<close> has completed, whether its save succeeded or not, the keys of
  \<open>headPeers\<close> are exactly the elements of \<open>heads\<close>: no key is missing and none
  is stale.
\<close>

theorem headPeers_keys_are_heads:
  assumes "reachable s" and "ingestChanges storage peer cs (s, w) = (r, s', w')"
  shows "fst ` set (headPeers s') = set (heads (changes s'))"
proof -
  have "s' = ingestBatch peer cs s"
    using assms(2) by (auto simp: ingestChanges_def ingestBatch_def Let_def split: prod.splits)
  then show ?thesis
    using reachable_keys[OF reachable.ingest[OF assms(1)]] by simp
qed


theorem headPeers_keys_are_heads_witness:
  "reachable (ingestBatch ''p1'' [\<lparr>hash = ''a'', deps = []\<rparr>] empty_syncer) \<and>
   ingestChanges failing_storage ''p2'' [\<lparr>hash = ''b'', deps = [''a'']\<rparr>]
       (ingestBatch ''p1'' [\<lparr>hash = ''a'', deps = []\<rparr>] empty_syncer, [])
     = (Inl ''disk full'',
        \<lparr>changes = \<lparr>nodes = [(''a'', []), (''b'', [''a''])], missing = [], heads = [''b'']\<rparr>,
         headPeers = [(''b'', [''p2''])]\<rparr>,
        [Json \<lparr>pojo_changes = \<lparr>pojo_nodes = [(''a'', []), (''b'', [''a''])],
                                pojo_missing = [], pojo_heads = [''b'']\<rparr>,
               pojo_headPeers = [(''b'', [''p2''])]\<rparr>]) \<and>
   fst ` set [(''b'', [''p2''])] = set [''b'']"
proof -
  have r: "reachable (ingestBatch ''p1'' [\<lparr>hash = ''a'', deps = []\<rparr>] empty_syncer)"
    by (rule reachable.ingest[OF reachable.initial])
  have e: "ingestChanges failing_storage ''p2'' [\<lparr>hash = ''b'', deps = [''a'']\<rparr>]
       (ingestBatch ''p1'' [\<lparr>hash = ''a'', deps = []\<rparr>] empty_syncer, [])
     = (Inl ''disk full'',
        \<lparr>changes = \<lparr>nodes = [(''a'', []), (''b'', [''a''])], missing = [], heads = [''b'']\<rparr>,
         headPeers = [(''b'', [''p2''])]\<rparr>,
        [Json \<lparr>pojo_changes = \<lparr>pojo_nodes = [(''a'', []), (''b'', [''a''])],
                                pojo_missing = [], pojo_heads = [''b'']\<rparr>,
               pojo_headPeers = [(''b'', [''p2''])]\<rparr>])"
    by (simp add: ingestChanges_def ingestChange_def ingestBatch_def failing_storage_def
        empty_syncer_def empty_graph_def addChange_def visit_dep_def add_peer_def getOrDefault_def
        Map_get_def Map_has_def Map_delete_def Map_new_def Array_from_def
        Set_new_def Set_add_def Set_has_def Set_delete_def
        JSON_stringify_def pojo_def ChangeGraph_pojo_def Let_def)
  from headPeers_keys_are_heads[OF r e] r e show ?thesis by simp
qed

section \<open>Ingesting a batch again\<close>

text \<open>
  After a batch from a peer, every hash of the batch is a node, and where it is a
  head the peer is recorded for it. \<open>told\<close> states this for a set of hashes.
\<close>

lemma ingestChange_told:
  assumes known: "set (heads (changes s)) \<subseteq> fst ` set (nodes (changes s))"
    and told: "\<forall>h \<in> H. Map_has (nodes (changes s)) h \<and>
                 (Set_has (heads (changes s)) h \<longrightarrow>
                    (\<exists>ps. map_of (headPeers s) h = Some ps \<and> peer \<in> set ps))"
    and h: "h \<in> insert (hash c) H"
  shows "Map_has (nodes (changes (ingestChange peer c s))) h \<and>
         (Set_has (heads (changes (ingestChange peer c s))) h \<longrightarrow>
            (\<exists>ps. map_of (headPeers (ingestChange peer c s)) h = Some ps \<and> peer \<in> set ps))"
proof (cases rule: ingestChange_cases[of s c])
  case exists_head
  then show ?thesis using told h
    by (auto simp: ingestChange_exists_head map_of_add_peer)
next
  case exists_other
  then show ?thesis using told h
    by (auto simp: ingestChange_exists_other)
next
  case missing
  then show ?thesis using told h known
    by (auto simp: ingestChange_missing Map_has_def Set_has_def)
next
  case new
  have "Set_has (heads (changes s)) h" if "h \<in> H" "h \<in> set (heads (changes s))" 
    using that by (simp add: Set_has_def)
  with new show ?thesis using told h
    by (auto simp: ingestChange_new addChange_new map_of_fold_Map_delete map_of_add_peer
          Map_has_def Set_has_def)
qed

lemma ingestBatch_told:
  assumes "set (heads (changes s)) \<subseteq> fst ` set (nodes (changes s))"
    and "\<forall>h \<in> H. Map_has (nodes (changes s)) h \<and>
                 (Set_has (heads (changes s)) h \<longrightarrow>
                    (\<exists>ps. map_of (headPeers s) h = Some ps \<and> peer \<in> set ps))"
  shows "\<forall>h \<in> H \<union> hash ` set cs.
           Map_has (nodes (changes (ingestBatch peer cs s))) h \<and>
           (Set_has (heads (changes (ingestBatch peer cs s))) h \<longrightarrow>
              (\<exists>ps. map_of (headPeers (ingestBatch peer cs s)) h = Some ps \<and> peer \<in> set ps))"
  using assms unfolding ingestBatch_def
proof (induction cs arbitrary: s H)
  case Nil
  then show ?case by simp
next
  case (Cons c cs)
  have "\<forall>h \<in> insert (hash c) H \<union> hash ` set cs.
           Map_has (nodes (changes (fold (ingestChange peer) cs (ingestChange peer c s)))) h \<and>
           (Set_has (heads (changes (fold (ingestChange peer) cs (ingestChange peer c s)))) h \<longrightarrow>
              (\<exists>ps. map_of (headPeers (fold (ingestChange peer) cs (ingestChange peer c s))) h = Some ps
                    \<and> peer \<in> set ps))"
  proof (rule Cons.IH)
    show "set (heads (changes (ingestChange peer c s)))
            \<subseteq> fst ` set (nodes (changes (ingestChange peer c s)))"
      by (rule ingestChange_heads_known[OF Cons.prems(1)])
    show "\<forall>h \<in> insert (hash c) H.
            Map_has (nodes (changes (ingestChange peer c s))) h \<and>
            (Set_has (heads (changes (ingestChange peer c s))) h \<longrightarrow>
               (\<exists>ps. map_of (headPeers (ingestChange peer c s)) h = Some ps \<and> peer \<in> set ps))"
      using ingestChange_told[OF Cons.prems(1) Cons.prems(2)] by blast
  qed
  then show ?case by simp
qed

lemma ingestBatch_told_noop:
  assumes "\<forall>h \<in> hash ` set cs.
             Map_has (nodes (changes s)) h \<and>
             (Set_has (heads (changes s)) h \<longrightarrow>
                (\<exists>ps. map_of (headPeers s) h = Some ps \<and> peer \<in> set ps))"
  shows "ingestBatch peer cs s = s"
  using assms unfolding ingestBatch_def
proof (induction cs)
  case Nil
  then show ?case by simp
next
  case (Cons c cs)
  have "ingestChange peer c s = s"
  proof (cases "Set_has (heads (changes s)) (hash c)")
    case True
    with Cons.prems obtain ps where "map_of (headPeers s) (hash c) = Some ps" "peer \<in> set ps"
      by auto
    then have "add_peer (headPeers s) (hash c) peer = headPeers s"
      by (rule add_peer_same)
    with True Cons.prems show ?thesis by (simp add: ingestChange_exists_head)
  next
    case False
    with Cons.prems show ?thesis by (simp add: ingestChange_exists_other)
  qed
  with Cons show ?case by simp
qed

lemma ingestBatch_twice:
  assumes "reachable s"
  shows "ingestBatch peer cs (ingestBatch peer cs s) = ingestBatch peer cs s"
proof (rule ingestBatch_told_noop)
  show "\<forall>h \<in> hash ` set cs.
          Map_has (nodes (changes (ingestBatch peer cs s))) h \<and>
          (Set_has (heads (changes (ingestBatch peer cs s))) h \<longrightarrow>
             (\<exists>ps. map_of (headPeers (ingestBatch peer cs s)) h = Some ps \<and> peer \<in> set ps))"
    using ingestBatch_told[OF reachable_heads_known[OF assms], of "{}" peer cs] by simp
qed

text \<open>
  C5. \<open>addChange\<close> of a summary whose hash is already a key of \<open>nodes\<close> answers
  \<open>already_exists\<close> and leaves the graph as it is. And from a reachable state,
  ingesting the same batch for the same peer a second time, right after the first,
  leaves the whole state (\<open>nodes\<close>, \<open>heads\<close>, \<open>missing\<close> and \<open>headPeers\<close>) as
  the first call left it.
\<close>

theorem ingest_idempotent:
  "(Map_has (nodes g) (hash c) \<longrightarrow> addChange g c = (already_exists, g)) \<and>
   (reachable s \<and>
    ingestChanges storage peer cs (s, w) = (r1, s1, w1) \<and>
    ingestChanges storage peer cs (s1, w1) = (r2, s2, w2) \<longrightarrow> s2 = s1)"
proof -
  have st: "ingestChanges storage peer cs (t, v) = (r, t', v') \<Longrightarrow> t' = ingestBatch peer cs t"
    for t v r t' v'
    by (auto simp: ingestChanges_def ingestBatch_def Let_def split: prod.splits)
  show ?thesis
    using ingestBatch_twice[of s peer cs] by (auto simp: addChange_exists dest!: st)
qed

theorem ingest_idempotent_witness:
  "addChange \<lparr>nodes = [(''a'', [])], missing = [], heads = [''a'']\<rparr> \<lparr>hash = ''a'', deps = [''z'']\<rparr>
     = (already_exists, \<lparr>nodes = [(''a'', [])], missing = [], heads = [''a'']\<rparr>) \<and>
   ingestChanges failing_storage ''p1''
       [\<lparr>hash = ''b'', deps = [''a'']\<rparr>, \<lparr>hash = ''c'', deps = []\<rparr>, \<lparr>hash = ''a'', deps = []\<rparr>]
       (\<lparr>changes = \<lparr>nodes = [(''b'', [''a'']), (''c'', []), (''a'', [])], missing = [],
                     heads = [''b'', ''c'']\<rparr>,
         headPeers = [(''b'', [''p1'']), (''c'', [''p1''])]\<rparr>,
        [Json \<lparr>pojo_changes = \<lparr>pojo_nodes = [(''b'', [''a'']), (''c'', []), (''a'', [])],
                                pojo_missing = [], pojo_heads = [''b'', ''c'']\<rparr>,
               pojo_headPeers = [(''b'', [''p1'']), (''c'', [''p1''])]\<rparr>])
     = (Inl ''disk full'',
        \<lparr>changes = \<lparr>nodes = [(''b'', [''a'']), (''c'', []), (''a'', [])], missing = [],
                     heads = [''b'', ''c'']\<rparr>,
         headPeers = [(''b'', [''p1'']), (''c'', [''p1''])]\<rparr>,
        [Json \<lparr>pojo_changes = \<lparr>pojo_nodes = [(''b'', [''a'']), (''c'', []), (''a'', [])],
                                pojo_missing = [], pojo_heads = [''b'', ''c'']\<rparr>,
               pojo_headPeers = [(''b'', [''p1'']), (''c'', [''p1''])]\<rparr>,
         Json \<lparr>pojo_changes = \<lparr>pojo_nodes = [(''b'', [''a'']), (''c'', []), (''a'', [])],
                                pojo_missing = [], pojo_heads = [''b'', ''c'']\<rparr>,
               pojo_headPeers = [(''b'', [''p1'']), (''c'', [''p1''])]\<rparr>])"
proof -
  let ?batch = "[\<lparr>hash = ''b'', deps = [''a'']\<rparr>, \<lparr>hash = ''c'', deps = []\<rparr>, \<lparr>hash = ''a'', deps = []\<rparr>]"
  let ?s1 = "\<lparr>changes = \<lparr>nodes = [(''b'', [''a'']), (''c'', []), (''a'', [])], missing = [],
                            heads = [''b'', ''c'']\<rparr>,
              headPeers = [(''b'', [''p1'']), (''c'', [''p1''])]\<rparr>"
  let ?j = "Json \<lparr>pojo_changes = \<lparr>pojo_nodes = [(''b'', [''a'']), (''c'', []), (''a'', [])],
                                pojo_missing = [], pojo_heads = [''b'', ''c'']\<rparr>,
               pojo_headPeers = [(''b'', [''p1'']), (''c'', [''p1''])]\<rparr>"
  note defs = ingestChanges_def ingestChange_def ingestBatch_def failing_storage_def
        empty_syncer_def empty_graph_def addChange_def visit_dep_def add_peer_def getOrDefault_def
        Map_get_def Map_has_def Map_delete_def Map_new_def Array_from_def
        Set_new_def Set_add_def Set_has_def Set_delete_def
        JSON_stringify_def pojo_def ChangeGraph_pojo_def Let_def
  have k: "Map_has (nodes \<lparr>nodes = [(''a'', [])], missing = [], heads = [''a'']\<rparr>)
             (hash \<lparr>hash = ''a'', deps = [''z'']\<rparr>)"
    by (simp add: Map_has_def)
  have e1: "ingestChanges failing_storage ''p1'' ?batch (empty_syncer, [])
              = (Inl ''disk full'', ?s1, [?j])"
    by (simp add: defs)
  have e2: "ingestChanges failing_storage ''p1'' ?batch (?s1, [?j])
              = (Inl ''disk full'',
                 fst (snd (ingestChanges failing_storage ''p1'' ?batch (?s1, [?j]))), [?j, ?j])"
    by (simp add: defs)
  from ingest_idempotent[of "\<lparr>nodes = [(''a'', [])], missing = [], heads = [''a'']\<rparr>"
         "\<lparr>hash = ''a'', deps = [''z'']\<rparr>" empty_syncer failing_storage "''p1''" ?batch "[]"
         "Inl ''disk full''" ?s1 "[?j]" "Inl ''disk full''"
         "fst (snd (ingestChanges failing_storage ''p1'' ?batch (?s1, [?j])))" "[?j, ?j]"]
    k reachable.initial e1 e2
  show ?thesis by simp
qed

section \<open>Reloading a snapshot\<close>

text \<open>
  C1. The claim is that a reachable state, saved with \<open>pojo\<close> and
  \<open>JSON.stringify\<close> and loaded again with \<open>HeadSyncer.init\<close>, comes back with the
  same \<open>nodes\<close>, \<open>heads\<close>, \<open>missing\<close> and \<open>headPeers\<close>. The state after peer
  \<open>p1\<close> has reported the single change \<open>a\<close> is reachable, and its \<open>headPeers\<close>
  maps \<open>a\<close> to the set holding \<open>p1\<close>. \<open>ingestChanges\<close> saves its snapshot, and
  \<open>init\<close> on the storage holding that snapshot maps \<open>a\<close> to an array holding
  the set of the characters \<open>p\<close> and \<open>1\<close>: the round trip does not give the state
  back.
\<close>

theorem reload_loses_headPeers:
  "reachable (ingestBatch ''p1'' [\<lparr>hash = ''a'', deps = []\<rparr>] empty_syncer) \<and>
   ingestChanges memory_storage ''p1'' [\<lparr>hash = ''a'', deps = []\<rparr>] (empty_syncer, None)
     = (Inr (),
        \<lparr>changes = \<lparr>nodes = [(''a'', [])], missing = [], heads = [''a'']\<rparr>,
         headPeers = [(''a'', [''p1''])]\<rparr>,
        Some (Json \<lparr>pojo_changes = \<lparr>pojo_nodes = [(''a'', [])], pojo_missing = [], pojo_heads = [''a'']\<rparr>,
                    pojo_headPeers = [(''a'', [''p1''])]\<rparr>)) \<and>
   init memory_storage
        (Some (Json \<lparr>pojo_changes = \<lparr>pojo_nodes = [(''a'', [])], pojo_missing = [], pojo_heads = [''a'']\<rparr>,
                     pojo_headPeers = [(''a'', [''p1''])]\<rparr>))
     = (Inr \<lparr>loaded_changes = \<lparr>nodes = [(''a'', [])], missing = [], heads = [''a'']\<rparr>,
             loaded_headPeers = [(''a'', SetArray [[''p'', ''1'']])]\<rparr>,
        Some (Json \<lparr>pojo_changes = \<lparr>pojo_nodes = [(''a'', [])], pojo_missing = [], pojo_heads = [''a'']\<rparr>,
                    pojo_headPeers = [(''a'', [''p1''])]\<rparr>)) \<and>
   \<not> same_state
        \<lparr>changes = \<lparr>nodes = [(''a'', [])], missing = [], heads = [''a'']\<rparr>,
         headPeers = [(''a'', [''p1''])]\<rparr>
        \<lparr>loaded_changes = \<lparr>nodes = [(''a'', [])], missing = [], heads = [''a'']\<rparr>,
         loaded_headPeers = [(''a'', SetArray [[''p'', ''1'']])]\<rparr>"
proof -
  have r: "reachable (ingestBatch ''p1'' [\<lparr>hash = ''a'', deps = []\<rparr>] empty_syncer)"
    by (rule reachable.ingest[OF reachable.initial])
  have s: "ingestChanges memory_storage ''p1'' [\<lparr>hash = ''a'', deps = []\<rparr>] (empty_syncer, None)
     = (Inr (),
        \<lparr>changes = \<lparr>nodes = [(''a'', [])], missing = [], heads = [''a'']\<rparr>,
         headPeers = [(''a'', [''p1''])]\<rparr>,
        Some (Json \<lparr>pojo_changes = \<lparr>pojo_nodes = [(''a'', [])], pojo_missing = [], pojo_heads = [''a'']\<rparr>,
                    pojo_headPeers = [(''a'', [''p1''])]\<rparr>))"
    by (simp add: ingestChanges_def ingestChange_def ingestBatch_def memory_storage_def
        empty_syncer_def empty_graph_def addChange_def visit_dep_def add_peer_def getOrDefault_def
        Map_get_def Map_has_def Map_delete_def Map_new_def Array_from_def
        Set_new_def Set_add_def Set_has_def
        JSON_stringify_def pojo_def ChangeGraph_pojo_def Let_def)
  have l: "init memory_storage
        (Some (Json \<lparr>pojo_changes = \<lparr>pojo_nodes = [(''a'', [])], pojo_missing = [], pojo_heads = [''a'']\<rparr>,
                     pojo_headPeers = [(''a'', [''p1''])]\<rparr>))
     = (Inr \<lparr>loaded_changes = \<lparr>nodes = [(''a'', [])], missing = [], heads = [''a'']\<rparr>,
             loaded_headPeers = [(''a'', SetArray [[''p'', ''1'']])]\<rparr>,
        Some (Json \<lparr>pojo_changes = \<lparr>pojo_nodes = [(''a'', [])], pojo_missing = [], pojo_heads = [''a'']\<rparr>,
                    pojo_headPeers = [(''a'', [''p1''])]\<rparr>))"
    by (simp add: init_def memory_storage_def ChangeGraph_new_def
        Map_new_def Set_of_string_def Set_new_def Set_add_def Set_has_def Let_def)
  have n: "\<not> same_state
        \<lparr>changes = \<lparr>nodes = [(''a'', [])], missing = [], heads = [''a'']\<rparr>,
         headPeers = [(''a'', [''p1''])]\<rparr>
        \<lparr>loaded_changes = \<lparr>nodes = [(''a'', [])], missing = [], heads = [''a'']\<rparr>,
         loaded_headPeers = [(''a'', SetArray [[''p'', ''1'']])]\<rparr>"
    by (simp add: same_state_def same_headPeers_def Map_get_def)
  from r s l n show ?thesis by (intro conjI)
qed

section \<open>Heads and dependencies\<close>

text \<open>
  C2. The claim is that in a reachable graph the heads are exactly the nodes that no
  node lists among its deps. Ingest \<open>C\<close> without deps, then \<open>B\<close> with deps
  \<open>[A]\<close>, then \<open>A\<close> with deps \<open>[C]\<close>: the last call takes the \<open>was_missing\<close>
  branch, which returns before the deps of \<open>A\<close> are visited, and \<open>C\<close> stays in
  \<open>heads\<close> although the node \<open>A\<close> lists it.
\<close>

theorem stale_head_after_filling:
  "reachable_graph
     (snd (addChange (snd (addChange (snd (addChange empty_graph \<lparr>hash = ''C'', deps = []\<rparr>))
                                      \<lparr>hash = ''B'', deps = [''A'']\<rparr>))
                     \<lparr>hash = ''A'', deps = [''C'']\<rparr>)) \<and>
   snd (addChange (snd (addChange (snd (addChange empty_graph \<lparr>hash = ''C'', deps = []\<rparr>))
                                      \<lparr>hash = ''B'', deps = [''A'']\<rparr>))
                     \<lparr>hash = ''A'', deps = [''C'']\<rparr>)
     = \<lparr>nodes = [(''C'', []), (''B'', [''A'']), (''A'', [''C''])], missing = [],
        heads = [''C'', ''B'']\<rparr> \<and>
   Set_has (heads \<lparr>nodes = [(''C'', []), (''B'', [''A'']), (''A'', [''C''])], missing = [],
                   heads = [''C'', ''B'']\<rparr>) ''C'' \<and>
   listed_as_dep \<lparr>nodes = [(''C'', []), (''B'', [''A'']), (''A'', [''C''])], missing = [],
                   heads = [''C'', ''B'']\<rparr> ''C''"
proof -
  have r: "reachable_graph
     (snd (addChange (snd (addChange (snd (addChange empty_graph \<lparr>hash = ''C'', deps = []\<rparr>))
                                      \<lparr>hash = ''B'', deps = [''A'']\<rparr>))
                     \<lparr>hash = ''A'', deps = [''C'']\<rparr>))"
    by (intro reachable_graph.step reachable_graph.start)
  show ?thesis
    using r
    by (simp add: addChange_def empty_graph_def Map_has_def Set_has_def Set_add_def Set_new_def
                Set_delete_def visit_dep_def listed_as_dep_def Let_def)
qed

section \<open>The scan for the best peer\<close>

lemma size_Set_intersection:
  assumes "distinct a" "distinct b"
  shows "length (Set_intersection a b) = card (set a \<inter> set b)"
  using distinct_card[OF distinct_Set_intersection[OF assms]] by simp

lemma try_peer_None:
  "try_peer R e None =
     (if Set_intersection (snd e) R = [] then None else Some (fst e, Set_intersection (snd e) R))"
  by (simp add: try_peer_def)

lemma try_peer_Some:
  "try_peer R e (Some b) =
     (if length (snd b) < length (Set_intersection (snd e) R)
      then Some (fst e, Set_intersection (snd e) R) else Some b)"
  by (simp add: try_peer_def)

text \<open>
  The scan returns nothing when no peer has a remaining head. Otherwise it returns
  an entry that splits the map in two: the entries before it have strictly smaller
  intersections, the entries after it have none larger.
\<close>

lemma scan_result:
  "case fold (try_peer R) ph None of
     None \<Rightarrow> \<forall>e \<in> set ph. Set_intersection (snd e) R = []
   | Some b \<Rightarrow>
       \<exists>pre e post. ph = pre @ e # post \<and> b = (fst e, Set_intersection (snd e) R) \<and>
         0 < length (Set_intersection (snd e) R) \<and>
         (\<forall>x \<in> set pre. length (Set_intersection (snd x) R) < length (Set_intersection (snd e) R)) \<and>
         (\<forall>x \<in> set post. length (Set_intersection (snd x) R) \<le> length (Set_intersection (snd e) R))"
proof (induction ph rule: rev_induct)
  case Nil
  then show ?case by simp
next
  case (snoc x xs)
  show ?case
  proof (cases "fold (try_peer R) xs None")
    case None
    with snoc have zero: "\<forall>e \<in> set xs. Set_intersection (snd e) R = []" by simp
    show ?thesis
    proof (cases "Set_intersection (snd x) R = []")
      case True
      with None zero show ?thesis by (simp add: try_peer_None)
    next
      case False
      have "\<exists>pre e post. xs @ [x] = pre @ e # post \<and>
              (fst x, Set_intersection (snd x) R) = (fst e, Set_intersection (snd e) R) \<and>
              0 < length (Set_intersection (snd e) R) \<and>
              (\<forall>y \<in> set pre. length (Set_intersection (snd y) R) < length (Set_intersection (snd e) R)) \<and>
              (\<forall>y \<in> set post. length (Set_intersection (snd y) R) \<le> length (Set_intersection (snd e) R))"
        using False zero by (intro exI[of _ xs] exI[of _ x] exI[of _ "[]"]) simp
      with None False show ?thesis by (simp add: try_peer_None)
    qed
  next
    case (Some b)
    with snoc obtain pre e post where split: "xs = pre @ e # post"
      and b: "b = (fst e, Set_intersection (snd e) R)"
      and pos: "0 < length (Set_intersection (snd e) R)"
      and before: "\<forall>y \<in> set pre. length (Set_intersection (snd y) R) < length (Set_intersection (snd e) R)"
      and after: "\<forall>y \<in> set post. length (Set_intersection (snd y) R) \<le> length (Set_intersection (snd e) R)"
      by auto
    show ?thesis
    proof (cases "length (Set_intersection (snd x) R) > length (Set_intersection (snd e) R)")
      case True
      have "\<exists>pre' e' post'. xs @ [x] = pre' @ e' # post' \<and>
              (fst x, Set_intersection (snd x) R) = (fst e', Set_intersection (snd e') R) \<and>
              0 < length (Set_intersection (snd e') R) \<and>
              (\<forall>y \<in> set pre'. length (Set_intersection (snd y) R) < length (Set_intersection (snd e') R)) \<and>
              (\<forall>y \<in> set post'. length (Set_intersection (snd y) R) \<le> length (Set_intersection (snd e') R))"
        using True split before after
        by (intro exI[of _ xs] exI[of _ x] exI[of _ "[]"]) fastforce
      with Some b True show ?thesis by (simp add: try_peer_Some)
    next
      case False
      have "\<exists>pre' e' post'. xs @ [x] = pre' @ e' # post' \<and>
              b = (fst e', Set_intersection (snd e') R) \<and>
              0 < length (Set_intersection (snd e') R) \<and>
              (\<forall>y \<in> set pre'. length (Set_intersection (snd y) R) < length (Set_intersection (snd e') R)) \<and>
              (\<forall>y \<in> set post'. length (Set_intersection (snd y) R) \<le> length (Set_intersection (snd e') R))"
        using False split b pos before after
        by (intro exI[of _ pre] exI[of _ e] exI[of _ "post @ [x]"]) auto
      with Some b False show ?thesis by (simp add: try_peer_Some)
    qed
  qed
qed

lemma peerWithMostHeads_None:
  assumes "peerWithMostHeads ph R = None"
  shows "\<forall>e \<in> set ph. set (snd e) \<inter> set R = {}"
proof
  fix e assume "e \<in> set ph"
  with scan_result[where R=R and ph=ph] assms have "Set_intersection (snd e) R = []"
    by (simp add: peerWithMostHeads_def)
  then have "set (Set_intersection (snd e) R) = {}" by simp
  then show "set (snd e) \<inter> set R = {}" by simp
qed

lemma peerWithMostHeads_Some:
  assumes "peerWithMostHeads ph R = Some b"
  obtains pre e post where "ph = pre @ e # post" "b = (fst e, Set_intersection (snd e) R)"
    "0 < length (Set_intersection (snd e) R)"
    "\<forall>x \<in> set pre. length (Set_intersection (snd x) R) < length (Set_intersection (snd e) R)"
    "\<forall>x \<in> set post. length (Set_intersection (snd x) R) \<le> length (Set_intersection (snd e) R)"
  using scan_result[where R=R and ph=ph] assms unfolding peerWithMostHeads_def by auto

text \<open>With distinct keys and duplicate-free sets this is the greedy rule.\<close>

lemma peerWithMostHeads_is_best:
  assumes keys: "distinct (map fst ph)"
    and sets: "\<forall>e \<in> set ph. distinct (snd e)" and R: "distinct R"
    and best: "peerWithMostHeads ph R = Some b"
  shows "\<exists>hs. Map_get ph (fst b) = Some hs \<and> snd b = Set_intersection hs R \<and> is_best ph R (fst b) hs"
proof -
  from best obtain pre e post where split: "ph = pre @ e # post"
    and b: "b = (fst e, Set_intersection (snd e) R)"
    and pos: "0 < length (Set_intersection (snd e) R)"
    and before: "\<forall>x \<in> set pre. length (Set_intersection (snd x) R) < length (Set_intersection (snd e) R)"
    and after: "\<forall>x \<in> set post. length (Set_intersection (snd x) R) \<le> length (Set_intersection (snd e) R)"
    by (rule peerWithMostHeads_Some)
  have size: "length (Set_intersection (snd x) R) = card (set (snd x) \<inter> set R)" if "x \<in> set ph" for x
    using that sets R by (simp add: size_Set_intersection)
  have e_in: "e \<in> set ph" using split by simp
  have get: "Map_get ph (fst e) = Some (snd e)"
    using keys e_in by (simp add: Map_get_def)
  have "\<forall>x \<in> set pre. fst x \<noteq> fst e"
    using keys split by (auto simp: image_iff)
  then have tw: "takeWhile (\<lambda>x. fst x \<noteq> fst e) ph = pre"
    unfolding split by (simp add: takeWhile_append2)
  have "is_best ph R (fst e) (snd e)"
    unfolding is_best_def Let_def tw
    using pos before after size split by (auto simp: less_imp_le)
  with get b show ?thesis by simp
qed

section \<open>The loop follows the greedy rule\<close>

lemma Set_difference_intersection:
  "Set_difference R (Set_intersection hs R) = filter (\<lambda>h. h \<notin> set hs) R"
  unfolding Set_difference_def by (rule filter_cong) (auto simp: Set_has_def)

lemma select_peers_greedy:
  assumes "distinct (map fst ph)" and "\<forall>e \<in> set ph. distinct (snd e)" and "distinct R"
    and "select_peers ph R acc = Inr res"
  shows "\<exists>ps. res = acc @ ps \<and> greedy_run ph R ps"
  using assms
proof (induction ph R acc rule: select_peers.induct)
  case (1 ph R acc)
  show ?case
  proof (cases "R = []")
    case True
    with "1.prems" show ?thesis by (simp add: select_peers.simps)
  next
    case False
    with "1.prems"(4) obtain b where b: "peerWithMostHeads ph R = Some b"
      by (cases "peerWithMostHeads ph R") (auto simp: select_peers.simps)
    from peerWithMostHeads_is_best[OF "1.prems"(1,2,3) b]
    obtain hs where hs: "Map_get ph (fst b) = Some hs" "snd b = Set_intersection hs R"
      "is_best ph R (fst b) hs" by blast
    have rest: "Set_difference R (snd b) = filter (\<lambda>h. h \<notin> set hs) R"
      using hs(2) by (simp add: Set_difference_intersection)
    have call: "select_peers ph (Set_difference R (snd b)) (acc @ [fst b]) = Inr res"
      using "1.prems"(4) False b by (simp add: select_peers.simps)
    have "\<exists>ps. res = (acc @ [fst b]) @ ps \<and> greedy_run ph (Set_difference R (snd b)) ps"
      using False b "1.prems"(1,2,3) call by (intro "1.IH") simp_all
    then obtain ps where ps: "res = acc @ fst b # ps" "greedy_run ph (filter (\<lambda>h. h \<notin> set hs) R) ps"
      unfolding rest by auto
    have "greedy_run ph R (fst b # ps)"
      using False hs ps(2) by simp
    with ps(1) show ?thesis by blast
  qed
qed

lemma greedy_run_covers:
  "greedy_run ph R ps \<Longrightarrow> set R \<subseteq> (\<Union>p \<in> set ps. peer_heads ph p)"
proof (induction ps arbitrary: R)
  case Nil
  then show ?case by simp
next
  case (Cons p ps)
  then obtain hs where hs: "Map_get ph p = Some hs"
    and run: "greedy_run ph (filter (\<lambda>h. h \<notin> set hs) R) ps"
    by (auto split: option.splits)
  from Cons.IH[OF run] have "set R - set hs \<subseteq> (\<Union>p \<in> set ps. peer_heads ph p)"
    by auto
  moreover have "peer_heads ph p = set hs" using hs by (simp add: peer_heads_def)
  ultimately show ?case by auto
qed

lemma greedy_run_same_set:
  "set R = set R' \<Longrightarrow> greedy_run ph R ps = greedy_run ph R' ps"
proof (induction ps arbitrary: R R')
  case Nil
  then show ?case by (metis greedy_run.simps(1) set_empty)
next
  case (Cons p ps)
  have e: "(R \<noteq> []) = (R' \<noteq> [])" using Cons.prems by (metis set_empty)
  have b: "is_best ph R p hs = is_best ph R' p hs" for hs
    using Cons.prems by (simp add: is_best_def)
  have "greedy_run ph (filter (\<lambda>h. h \<notin> set hs) R) ps = greedy_run ph (filter (\<lambda>h. h \<notin> set hs) R') ps" for hs
    using Cons.prems by (intro Cons.IH) simp
  with e b show ?case by (simp split: option.splits)
qed

text \<open>The loop returns when every remaining head is held by some peer, and only then.\<close>

lemma select_peers_returns:
  assumes "\<forall>h \<in> set R. \<exists>e \<in> set ph. h \<in> set (snd e)"
  shows "\<exists>res. select_peers ph R acc = Inr res"
  using assms
proof (induction ph R acc rule: select_peers.induct)
  case (1 ph R acc)
  show ?case
  proof (cases "R = []")
    case True
    then show ?thesis by (simp add: select_peers.simps)
  next
    case False
    then obtain h where h: "h \<in> set R" by (cases R) auto
    with "1.prems" obtain e where e: "e \<in> set ph" "h \<in> set (snd e)" by blast
    have "peerWithMostHeads ph R \<noteq> None"
    proof
      assume "peerWithMostHeads ph R = None"
      from peerWithMostHeads_None[OF this] e h show False by auto
    qed
    then obtain b where b: "peerWithMostHeads ph R = Some b" by auto
    have "\<exists>res. select_peers ph (Set_difference R (snd b)) (acc @ [fst b]) = Inr res"
      using False b "1.prems" by (intro "1.IH") auto
    with False b show ?thesis by (simp add: select_peers.simps)
  qed
qed

lemma select_peers_raises:
  assumes "h \<in> set R" and "\<forall>e \<in> set ph. h \<notin> set (snd e)"
  shows "select_peers ph R acc = Inl NoPeerWithHeads"
  using assms
proof (induction ph R acc rule: select_peers.induct)
  case (1 ph R acc)
  have ne: "R \<noteq> []" using "1.prems"(1) by auto
  show ?case
  proof (cases "peerWithMostHeads ph R")
    case None
    with ne show ?thesis by (simp add: select_peers.simps)
  next
    case (Some b)
    then obtain pre e post where "ph = pre @ e # post" "b = (fst e, Set_intersection (snd e) R)"
      by (rule peerWithMostHeads_Some)
    then have "h \<notin> set (snd b)" using "1.prems"(2) by auto
    then have "h \<in> set (Set_difference R (snd b))" using "1.prems"(1) by simp
    then have "select_peers ph (Set_difference R (snd b)) (acc @ [fst b]) = Inl NoPeerWithHeads"
      using ne Some "1.prems"(2) by (intro "1.IH") auto
    with ne Some show ?thesis by (simp add: select_peers.simps)
  qed
qed

section \<open>The inverted index\<close>

lemma add_head_add_peer: "add_head h p ph = add_peer ph p h"
  by (simp add: add_head_def add_peer_def)

lemma peer_heads_add_head:
  "peer_heads (add_head h q ph) p = (if p = q then insert h (peer_heads ph p) else peer_heads ph p)"
  by (auto simp: peer_heads_def Map_get_def add_head_add_peer map_of_add_peer split: option.splits)

lemma peer_heads_fold_add_head:
  "peer_heads (fold (add_head h) qs ph) p =
     (if p \<in> set qs then insert h (peer_heads ph p) else peer_heads ph p)"
  by (induction qs arbitrary: ph) (auto simp: peer_heads_add_head)

lemma peer_heads_fold:
  "peer_heads (fold (\<lambda>(head, peers) ph. fold (add_head head) peers ph) hp ph) p =
     peer_heads ph p \<union> attributedHeads hp p"
  by (induction hp arbitrary: ph) (auto simp: peer_heads_fold_add_head attributedHeads_def)

lemma peer_heads_peerHeads_of: "peer_heads (peerHeads_of hp) p = attributedHeads hp p"
proof -
  have "peer_heads [] p = {}" by (simp add: peer_heads_def Map_get_def)
  then show ?thesis unfolding peerHeads_of_def peer_heads_fold by simp
qed

text \<open>The index has each peer once, and each of its sets is free of duplicates.\<close>

lemma add_head_wf:
  assumes "distinct (map fst ph)" "\<forall>e \<in> set ph. distinct (snd e)"
  shows "distinct (map fst (add_head h q ph)) \<and> (\<forall>e \<in> set (add_head h q ph). distinct (snd e))"
proof -
  have d: "distinct (map fst (add_head h q ph))"
    using assms(1) by (auto simp: add_head_def getOrDefault_def split: option.splits)
  have "distinct hs" if "map_of (add_head h q ph) k = Some hs" for k hs
    using that assms
    by (auto simp: add_head_add_peer map_of_add_peer split: if_splits option.splits
             dest!: map_of_SomeD)
  with d show ?thesis
    by (metis map_of_is_SomeI prod.collapse)
qed

lemma fold_add_head_wf:
  assumes "distinct (map fst ph)" "\<forall>e \<in> set ph. distinct (snd e)"
  shows "distinct (map fst (fold (add_head h) qs ph)) \<and>
         (\<forall>e \<in> set (fold (add_head h) qs ph). distinct (snd e))"
  using assms
proof (induction qs arbitrary: ph)
  case Nil
  then show ?case by simp
next
  case (Cons q qs)
  from add_head_wf[OF Cons.prems, of h q]
  have "distinct (map fst (add_head h q ph))" "\<forall>e \<in> set (add_head h q ph). distinct (snd e)"
    by simp_all
  from Cons.IH[OF this] show ?case by simp
qed

lemma peerHeads_fold_wf:
  assumes "distinct (map fst ph)" "\<forall>e \<in> set ph. distinct (snd e)"
  shows "distinct (map fst (fold (\<lambda>(head, peers) ph. fold (add_head head) peers ph) hp ph)) \<and>
         (\<forall>e \<in> set (fold (\<lambda>(head, peers) ph. fold (add_head head) peers ph) hp ph). distinct (snd e))"
  using assms
proof (induction hp arbitrary: ph)
  case Nil
  then show ?case by simp
next
  case (Cons x hp)
  obtain h qs where x: "x = (h, qs)" by (cases x)
  from fold_add_head_wf[OF Cons.prems, of h qs]
  have "distinct (map fst (fold (add_head h) qs ph))"
    "\<forall>e \<in> set (fold (add_head h) qs ph). distinct (snd e)"
    by simp_all
  from Cons.IH[OF this] show ?case by (simp add: x)
qed

lemma peerHeads_of_wf:
  "distinct (map fst (peerHeads_of hp))" "\<forall>e \<in> set (peerHeads_of hp). distinct (snd e)"
  using peerHeads_fold_wf[of "[]" hp] by (simp_all add: peerHeads_of_def)

lemma covered_heads_keys: "covered_heads hp ps \<subseteq> fst ` set hp"
  by (auto simp: covered_heads_def attributedHeads_def)

section \<open>The peers chosen cover the heads\<close>

lemma select_cover:
  assumes "every_head_attributed s"
    and "fst ` set (headPeers s) \<subseteq> set (heads (changes s))"
  shows "\<exists>ps. calculatePeersToDownloadFrom s = Inr ps \<and>
              covered_heads (headPeers s) ps = set (heads (changes s)) \<and>
              greedy_run (peerHeads_of (headPeers s)) (heads (changes s)) ps"
proof -
  let ?ph = "peerHeads_of (headPeers s)"
  let ?R = "Set_new (heads (changes s))"
  have "\<exists>e \<in> set ?ph. h \<in> set (snd e)" if "h \<in> set ?R" for h
  proof -
    from that assms(1) obtain e where e: "e \<in> set (headPeers s)" "fst e = h" "snd e \<noteq> []"
      by (auto simp: every_head_attributed_def)
    then obtain p where p: "p \<in> set (snd e)" by (cases "snd e") auto
    with e have "h \<in> attributedHeads (headPeers s) p"
      by (auto simp: attributedHeads_def)
    then have "h \<in> peer_heads ?ph p" by (simp add: peer_heads_peerHeads_of)
    then obtain hs where hs: "map_of ?ph p = Some hs" "h \<in> set hs"
      by (auto simp: peer_heads_def Map_get_def split: option.splits)
    from map_of_SomeD[OF hs(1)] hs(2) show ?thesis
      by (intro bexI[of _ "(p, hs)"]) simp_all
  qed
  then obtain ps where ps: "select_peers ?ph ?R [] = Inr ps"
    using select_peers_returns[of ?R ?ph "[]"] by blast
  from select_peers_greedy[OF peerHeads_of_wf distinct_Set_new ps]
  have run: "greedy_run ?ph ?R ps" by simp
  have "set (heads (changes s)) \<subseteq> covered_heads (headPeers s) ps"
    using greedy_run_covers[OF run] by (simp add: covered_heads_def peer_heads_peerHeads_of)
  moreover have "covered_heads (headPeers s) ps \<subseteq> set (heads (changes s))"
    using covered_heads_keys[of "headPeers s" ps] assms(2) by blast
  moreover have "greedy_run ?ph (heads (changes s)) ps"
    using run greedy_run_same_set[of ?R "heads (changes s)" ?ph ps] by simp
  ultimately show ?thesis
    using ps by (auto simp: calculatePeersToDownloadFrom_def)
qed

text \<open>
  C4. Take a state reached from the empty one by calls of \<open>ingestChanges\<close> in
  which every head has a peer recorded for it. Then \<open>calculatePeersToDownloadFrom\<close>
  returns a sequence of peers; the heads recorded for these peers are, taken
  together, exactly \<open>heads\<close>; and the sequence is a greedy run: each peer, at its
  turn, has the largest number of still uncovered heads, and is the first such
  peer in the order of the inverted index.
\<close>

theorem greedy_cover:
  assumes "reachable s" and "every_head_attributed s"
  shows "\<exists>ps. calculatePeersToDownloadFrom s = Inr ps \<and>
              covered_heads (headPeers s) ps = set (heads (changes s)) \<and>
              greedy_run (peerHeads_of (headPeers s)) (heads (changes s)) ps"
  using assms(2) reachable_keys[OF assms(1)] by (intro select_cover) simp_all

lemmas selection_eval = calculatePeersToDownloadFrom_def peerHeads_of_def add_head_def getOrDefault_def
        Map_get_def Set_new_def Set_add_def Set_has_def peerWithMostHeads_def try_peer_def
        Set_intersection_def Set_difference_def Let_def select_peers.simps
        every_head_attributed_def covered_heads_def attributedHeads_def

theorem greedy_cover_witness:
  "reachable (ingestBatch ''r'' [\<lparr>hash = ''b'', deps = []\<rparr>, \<lparr>hash = ''c'', deps = []\<rparr>, \<lparr>hash = ''d'', deps = []\<rparr>]
               (ingestBatch ''q'' [\<lparr>hash = ''a'', deps = []\<rparr>, \<lparr>hash = ''b'', deps = []\<rparr>, \<lparr>hash = ''c'', deps = []\<rparr>]
                  (ingestBatch ''p'' [\<lparr>hash = ''a'', deps = []\<rparr>] empty_syncer))) \<and>
   ingestBatch ''r'' [\<lparr>hash = ''b'', deps = []\<rparr>, \<lparr>hash = ''c'', deps = []\<rparr>, \<lparr>hash = ''d'', deps = []\<rparr>]
     (ingestBatch ''q'' [\<lparr>hash = ''a'', deps = []\<rparr>, \<lparr>hash = ''b'', deps = []\<rparr>, \<lparr>hash = ''c'', deps = []\<rparr>]
        (ingestBatch ''p'' [\<lparr>hash = ''a'', deps = []\<rparr>] empty_syncer))
     = \<lparr>changes = \<lparr>nodes = [(''a'', []), (''b'', []), (''c'', []), (''d'', [])], missing = [],
                    heads = [''a'', ''b'', ''c'', ''d'']\<rparr>,
        headPeers = [(''a'', [''p'', ''q'']), (''b'', [''q'', ''r'']), (''c'', [''q'', ''r'']), (''d'', [''r''])]\<rparr> \<and>
   calculatePeersToDownloadFrom
     \<lparr>changes = \<lparr>nodes = [(''a'', []), (''b'', []), (''c'', []), (''d'', [])], missing = [],
                  heads = [''a'', ''b'', ''c'', ''d'']\<rparr>,
      headPeers = [(''a'', [''p'', ''q'']), (''b'', [''q'', ''r'']), (''c'', [''q'', ''r'']), (''d'', [''r''])]\<rparr>
     = Inr [''q'', ''r''] \<and>
   peerHeads_of [(''a'', [''p'', ''q'']), (''b'', [''q'', ''r'']), (''c'', [''q'', ''r'']), (''d'', [''r''])]
     = [(''p'', [''a'']), (''q'', [''a'', ''b'', ''c'']), (''r'', [''b'', ''c'', ''d''])] \<and>
   covered_heads [(''a'', [''p'', ''q'']), (''b'', [''q'', ''r'']), (''c'', [''q'', ''r'']), (''d'', [''r''])]
       [''q'', ''r'']
     = set [''a'', ''b'', ''c'', ''d''] \<and>
   greedy_run [(''p'', [''a'']), (''q'', [''a'', ''b'', ''c'']), (''r'', [''b'', ''c'', ''d''])]
       [''a'', ''b'', ''c'', ''d''] [''q'', ''r'']"
proof -
  let ?s = "\<lparr>changes = \<lparr>nodes = [(''a'', []), (''b'', []), (''c'', []), (''d'', [])], missing = [],
                  heads = [''a'', ''b'', ''c'', ''d'']\<rparr>,
      headPeers = [(''a'', [''p'', ''q'']), (''b'', [''q'', ''r'']), (''c'', [''q'', ''r'']), (''d'', [''r''])]\<rparr>"
  let ?t = "ingestBatch ''r'' [\<lparr>hash = ''b'', deps = []\<rparr>, \<lparr>hash = ''c'', deps = []\<rparr>, \<lparr>hash = ''d'', deps = []\<rparr>]
     (ingestBatch ''q'' [\<lparr>hash = ''a'', deps = []\<rparr>, \<lparr>hash = ''b'', deps = []\<rparr>, \<lparr>hash = ''c'', deps = []\<rparr>]
        (ingestBatch ''p'' [\<lparr>hash = ''a'', deps = []\<rparr>] empty_syncer))"
  have r: "reachable ?t"
    by (intro reachable.ingest reachable.initial)
  have e: "?t = ?s"
    by (simp add: ingestChange_def ingestBatch_def
        empty_syncer_def empty_graph_def addChange_def visit_dep_def add_peer_def getOrDefault_def
        Map_get_def Map_has_def Map_delete_def Set_new_def Set_add_def Set_has_def Let_def)
  have a: "every_head_attributed ?s"
    by (simp add: every_head_attributed_def)
  have c: "calculatePeersToDownloadFrom ?s = Inr [''q'', ''r'']"
    by (simp add: selection_eval)
  have p: "peerHeads_of [(''a'', [''p'', ''q'']), (''b'', [''q'', ''r'']), (''c'', [''q'', ''r'']), (''d'', [''r''])]
     = [(''p'', [''a'']), (''q'', [''a'', ''b'', ''c'']), (''r'', [''b'', ''c'', ''d''])]"
    by (simp add: selection_eval)
  have r': "reachable ?s" using r unfolding e .
  from greedy_cover[OF r' a] c p r e show ?thesis
    by auto
qed

section \<open>More about the containers\<close>

lemma Map_set_new: "k \<notin> fst ` set m \<Longrightarrow> Map_set m k v = m @ [(k, v)]"
  by (induction m) auto

lemma fold_Set_add_distinct_append:
  "distinct (acc @ xs) \<Longrightarrow> fold (\<lambda>x s. Set_add s x) xs acc = acc @ xs"
  by (induction xs arbitrary: acc) (auto simp: Set_add_def Set_has_def)

lemma Set_new_distinct: "distinct xs \<Longrightarrow> Set_new xs = xs"
  using fold_Set_add_distinct_append[of "[]" xs] by (simp add: Set_new_def)

lemma fold_Map_set_distinct_append:
  "distinct (map fst (acc @ es)) \<Longrightarrow> fold (\<lambda>e m. Map_set m (fst e) (snd e)) es acc = acc @ es"
proof (induction es arbitrary: acc)
  case Nil
  then show ?case by simp
next
  case (Cons e es)
  have "Map_set acc (fst e) (snd e) = acc @ [e]"
    using Cons.prems by (simp add: Map_set_new)
  moreover have "distinct (map fst ((acc @ [e]) @ es))" using Cons.prems by simp
  ultimately show ?case using Cons.IH[of "acc @ [e]"] by simp
qed

lemma Map_new_distinct: "distinct (map fst es) \<Longrightarrow> Map_new es = es"
  using fold_Map_set_distinct_append[of "[]" es] by (simp add: Map_new_def)

section \<open>What a reload keeps\<close>

text \<open>
  The containers of a reachable state hold no key and no element twice, so the
  arrays and objects of a snapshot list them as they are.
\<close>

lemma addChange_wf:
  assumes "distinct (map fst (nodes g))" "distinct (heads g)" "distinct (missing g)"
  shows "distinct (map fst (nodes (snd (addChange g c)))) \<and>
         distinct (heads (snd (addChange g c))) \<and>
         distinct (missing (snd (addChange g c)))"
proof (cases "Map_has (nodes g) (hash c)")
  case True
  then show ?thesis using assms by (simp add: addChange_exists)
next
  case False
  show ?thesis
  proof (cases "Set_has (missing g) (hash c)")
    case True
    with False assms show ?thesis by (simp add: addChange_missing)
  next
    case no: False
    with False assms show ?thesis by (simp add: addChange_new fold_Set_add_distinct)
  qed
qed

lemma fold_Map_delete_wf:
  "distinct (map fst hp) \<Longrightarrow> distinct (map fst (fold (\<lambda>r hp. Map_delete hp r) rs hp))"
  by (induction rs arbitrary: hp) auto

lemma add_peer_wf: "distinct (map fst hp) \<Longrightarrow> distinct (map fst (add_peer hp h peer))"
  by (auto simp: add_peer_def getOrDefault_def split: option.splits)

lemma ingestChange_wf:
  assumes "distinct (map fst (nodes (changes s)))" "distinct (heads (changes s))"
    "distinct (missing (changes s))" "distinct (map fst (headPeers s))"
  shows "distinct (map fst (nodes (changes (ingestChange peer c s)))) \<and>
         distinct (heads (changes (ingestChange peer c s))) \<and>
         distinct (missing (changes (ingestChange peer c s))) \<and>
         distinct (map fst (headPeers (ingestChange peer c s)))"
proof -
  have "distinct (map fst (headPeers (ingestChange peer c s)))"
    using assms(4)
    by (auto simp: ingestChange_def add_peer_wf fold_Map_delete_wf
             split: prod.splits AddChangeResult.splits)
  with addChange_wf[OF assms(1,2,3), of c] show ?thesis
    by (simp add: ingestChange_changes)
qed

lemma ingestBatch_wf:
  assumes "distinct (map fst (nodes (changes s)))" "distinct (heads (changes s))"
    "distinct (missing (changes s))" "distinct (map fst (headPeers s))"
  shows "distinct (map fst (nodes (changes (ingestBatch peer cs s)))) \<and>
         distinct (heads (changes (ingestBatch peer cs s))) \<and>
         distinct (missing (changes (ingestBatch peer cs s))) \<and>
         distinct (map fst (headPeers (ingestBatch peer cs s)))"
  using assms unfolding ingestBatch_def
proof (induction cs arbitrary: s)
  case Nil
  then show ?case by simp
next
  case (Cons c cs)
  from ingestChange_wf[OF Cons.prems, of peer c]
  have "distinct (map fst (nodes (changes (ingestChange peer c s))))"
    "distinct (heads (changes (ingestChange peer c s)))"
    "distinct (missing (changes (ingestChange peer c s)))"
    "distinct (map fst (headPeers (ingestChange peer c s)))"
    by simp_all
  from Cons.IH[OF this] show ?case by simp
qed

lemma reachable_wf:
  assumes "reachable s"
  shows "distinct (map fst (nodes (changes s))) \<and> distinct (heads (changes s)) \<and>
         distinct (missing (changes s)) \<and> distinct (map fst (headPeers s))"
  using assms
proof (induction rule: reachable.induct)
  case initial
  then show ?case by (simp add: empty_syncer_def empty_graph_def)
next
  case (ingest s peer cs)
  then show ?case using ingestBatch_wf[of s peer cs] by blast
qed

text \<open>
  The graph of a reachable state comes back as it was. Its \<open>headPeers\<close> comes back
  with every set of peers replaced by the array of the character sets of the peer
  names, so the reloaded state is the same only when no head has a peer recorded.
\<close>

lemma init_memory_storage:
  "init memory_storage (Some (JSON_stringify p)) =
     (Inr \<lparr>loaded_changes = ChangeGraph_new (Some (pojo_changes p)),
           loaded_headPeers =
             Map_new (map (\<lambda>(k, v). (k, SetArray (map Set_of_string v))) (pojo_headPeers p))\<rparr>,
      Some (JSON_stringify p))"
  by (simp add: init_def memory_storage_def JSON_stringify_def)

lemma reload_graph:
  assumes "reachable s" and "init memory_storage (Some (JSON_stringify (pojo s))) = (Inr l, w)"
  shows "loaded_changes l = changes s"
  using reachable_wf[OF assms(1)] assms(2) unfolding init_memory_storage
  by (auto simp: pojo_def ChangeGraph_pojo_def ChangeGraph_new_def
        Array_from_def Map_new_distinct Set_new_distinct)

lemma keys_map_values: "map fst (map (\<lambda>(k, v). (k, f v)) hp) = map fst hp"
  by (induction hp) auto

lemma reload_headPeers:
  assumes "reachable s" and "init memory_storage (Some (JSON_stringify (pojo s))) = (Inr l, w)"
  shows "loaded_headPeers l = map (\<lambda>(k, v). (k, SetArray (map Set_of_string v))) (headPeers s)"
proof -
  have d: "distinct (map fst (headPeers s))" using reachable_wf[OF assms(1)] by simp
  have i: "map (\<lambda>(k, v). (k, Array_from v)) hp = hp" for hp :: "(string, string jsset) jsmap"
    by (induction hp) (auto simp: Array_from_def)
  have "distinct (map fst (map (\<lambda>(k, v). (k, SetArray (map Set_of_string v))) (headPeers s)))"
    using d by (simp only: keys_map_values)
  then show ?thesis
    using d assms(2) unfolding init_memory_storage
    by (auto simp: pojo_def i Map_new_distinct)
qed

lemma reload_same_iff:
  assumes "reachable s" and "init memory_storage (Some (JSON_stringify (pojo s))) = (Inr l, w)"
  shows "same_state s l \<longleftrightarrow> headPeers s = []"
proof -
  let ?l = "map (\<lambda>(k, v). (k, SetArray (map Set_of_string v))) (headPeers s)"
  have keys: "fst ` set ?l = fst ` set (headPeers s)"
    using keys_map_values[of "\<lambda>v. SetArray (map Set_of_string v)" "headPeers s"]
    by (metis set_map)
  have get: "Map_get ?l k = map_option (\<lambda>v. SetArray (map Set_of_string v)) (Map_get (headPeers s) k)" for k
    by (simp add: Map_get_def map_of_map)
  have "\<not> same_headPeers (headPeers s) ?l" if "headPeers s \<noteq> []"
  proof -
    from that obtain k v where kv: "(k, v) \<in> set (headPeers s)"
      by (cases "headPeers s") auto
    then obtain v' where "Map_get (headPeers s) k = Some v'"
      by (metis Map_get_def weak_map_of_SomeI)
    moreover have "k \<in> fst ` set (headPeers s)" using kv by force
    ultimately show ?thesis
      unfolding same_headPeers_def get by force
  qed
  moreover have "same_headPeers [] []" by (simp add: same_headPeers_def)
  ultimately have "same_headPeers (headPeers s) ?l \<longleftrightarrow> headPeers s = []"
    by auto
  then show ?thesis
    by (simp add: same_state_def reload_graph[OF assms] reload_headPeers[OF assms])
qed

section \<open>The part of the head rule that holds\<close>

text \<open>
  In a reachable graph every head is a node, and a node that no node lists among
  its deps is a head. What can fail is the converse: a head may be listed.
\<close>

lemma addChange_unlisted:
  assumes nodes: "\<forall>k \<in> fst ` set (nodes g). k \<in> set (heads g) \<or> listed_as_dep g k"
    and miss: "\<forall>m \<in> set (missing g). listed_as_dep g m"
  shows "(\<forall>k \<in> fst ` set (nodes (snd (addChange g c))).
            k \<in> set (heads (snd (addChange g c))) \<or> listed_as_dep (snd (addChange g c)) k) \<and>
         (\<forall>m \<in> set (missing (snd (addChange g c))). listed_as_dep (snd (addChange g c)) m)"
proof (cases "Map_has (nodes g) (hash c)")
  case True
  then show ?thesis using assms by (simp add: addChange_exists)
next
  case False
  then have new: "hash c \<notin> fst ` set (nodes g)" by (simp add: Map_has_def)
  show ?thesis
  proof (cases "Set_has (missing g) (hash c)")
    case True
    have l: "listed_as_dep (g\<lparr>nodes := Map_set (nodes g) (hash c) (deps c),
                               missing := Set_delete (missing g) (hash c)\<rparr>) h
               \<longleftrightarrow> listed_as_dep g h \<or> h \<in> set (deps c)" for h
      using new by (auto simp: listed_as_dep_def Map_set_new)
    from True False assms show ?thesis
      unfolding addChange_missing[OF False True] snd_conv
      by (auto simp: l Set_has_def)
  next
    case no: False
    let ?g' = "\<lparr>nodes = Map_set (nodes g) (hash c) (deps c),
       missing = fold (\<lambda>x s. Set_add s x)
                   (filter (\<lambda>d. \<not> Map_has (Map_set (nodes g) (hash c) (deps c)) d) (Set_new (deps c)))
                   (missing g),
       heads = filter (\<lambda>h. h \<notin> set (deps c)) (Set_add (heads g) (hash c))\<rparr>"
    have l: "listed_as_dep ?g' h \<longleftrightarrow> listed_as_dep g h \<or> h \<in> set (deps c)" for h
      using new by (auto simp: listed_as_dep_def Map_set_new)
    from assms show ?thesis
      unfolding addChange_new[OF False no] snd_conv
      by (auto simp: l fold_Set_add_set)
  qed
qed

lemma reachable_graph_unlisted:
  assumes "reachable_graph g"
  shows "(\<forall>k \<in> fst ` set (nodes g). k \<in> set (heads g) \<or> listed_as_dep g k) \<and>
         (\<forall>m \<in> set (missing g). listed_as_dep g m)"
  using assms
proof (induction rule: reachable_graph.induct)
  case start
  then show ?case by (simp add: empty_graph_def)
next
  case (step g change)
  then show ?case using addChange_unlisted[of g change] by blast
qed

lemma reachable_graph_heads_known:
  "reachable_graph g \<Longrightarrow> set (heads g) \<subseteq> fst ` set (nodes g)"
  by (induction rule: reachable_graph.induct) (simp_all add: empty_graph_def addChange_heads_known)

lemma unlisted_node_is_head:
  assumes "reachable_graph g" "Map_has (nodes g) h" "\<not> listed_as_dep g h"
  shows "Set_has (heads g) h"
  using reachable_graph_unlisted[OF assms(1)] assms(2,3)
  by (auto simp: Map_has_def Set_has_def)

section \<open>Reachable states have a peer for every head\<close>

lemma set_Map_set_subset: "set (Map_set m k v) \<subseteq> insert (k, v) (set m)"
  by (induction m) auto

lemma Map_set_last: "k \<notin> fst ` set m \<Longrightarrow> Map_set (m @ [(k, x)]) k v = m @ [(k, v)]"
  by (induction m) auto

lemma add_peer_nonempty:
  assumes "\<forall>e \<in> set hp. snd e \<noteq> []"
  shows "\<forall>e \<in> set (add_peer hp h peer). snd e \<noteq> []"
proof (cases "map_of hp h")
  case None
  then have new: "h \<notin> fst ` set hp" by (simp add: map_of_eq_None_iff)
  then have "add_peer hp h peer = hp @ [(h, [peer])]"
    using None by (simp add: add_peer_def getOrDefault_def Map_get_def Map_set_new Map_set_last
                     Set_add_def Set_has_def)
  then show ?thesis using assms by simp
next
  case (Some ps)
  have "Set_add ps peer \<noteq> []" by (auto simp: Set_add_def Set_has_def)
  moreover have "set (add_peer hp h peer) \<subseteq> insert (h, Set_add ps peer) (set hp)"
    using Some set_Map_set_subset[of hp h "Set_add ps peer"]
    by (simp add: add_peer_def getOrDefault_def Map_get_def)
  ultimately show ?thesis using assms by auto
qed

lemma fold_Map_delete_subset: "set (fold (\<lambda>r hp. Map_delete hp r) rs hp) \<subseteq> set hp"
proof (induction rs arbitrary: hp)
  case Nil
  then show ?case by simp
next
  case (Cons r rs)
  have "set (Map_delete hp r) \<subseteq> set hp" by (auto simp: Map_delete_def)
  with Cons.IH[of "Map_delete hp r"] show ?case by auto
qed

lemma ingestChange_nonempty:
  assumes "\<forall>e \<in> set (headPeers s). snd e \<noteq> []"
  shows "\<forall>e \<in> set (headPeers (ingestChange peer c s)). snd e \<noteq> []"
  using add_peer_nonempty[OF assms, of "hash c" peer] assms
    fold_Map_delete_subset[of _ "add_peer (headPeers s) (hash c) peer"]
  by (auto simp: ingestChange_def split: prod.splits AddChangeResult.splits)

lemma ingestBatch_nonempty:
  assumes "\<forall>e \<in> set (headPeers s). snd e \<noteq> []"
  shows "\<forall>e \<in> set (headPeers (ingestBatch peer cs s)). snd e \<noteq> []"
  using assms unfolding ingestBatch_def
proof (induction cs arbitrary: s)
  case Nil
  then show ?case by simp
next
  case (Cons c cs)
  from Cons.IH[OF ingestChange_nonempty[OF Cons.prems, of peer c]] show ?case by simp
qed

lemma reachable_nonempty: "reachable s \<Longrightarrow> \<forall>e \<in> set (headPeers s). snd e \<noteq> []"
  by (induction rule: reachable.induct) (simp_all add: empty_syncer_def ingestBatch_nonempty)

lemma reachable_attributed: "reachable s \<Longrightarrow> every_head_attributed s"
  using reachable_keys[of s] reachable_nonempty[of s]
  unfolding every_head_attributed_def by (metis imageE)

text \<open>
  So the selection never raises in a reachable state, and there the heads of the
  chosen peers are exactly \<open>heads\<close>.
\<close>

lemma reachable_cover:
  assumes "reachable s"
  shows "\<exists>ps. calculatePeersToDownloadFrom s = Inr ps \<and>
              covered_heads (headPeers s) ps = set (heads (changes s)) \<and>
              greedy_run (peerHeads_of (headPeers s)) (heads (changes s)) ps"
  using reachable_attributed[OF assms] reachable_keys[OF assms]
  by (intro select_cover) simp_all

text \<open>A head that no peer is recorded for makes the selection raise.\<close>

lemma unattributed_head_raises:
  assumes "h \<in> set (heads (changes s))" and "\<forall>p. h \<notin> attributedHeads (headPeers s) p"
  shows "calculatePeersToDownloadFrom s = Inl NoPeerWithHeads"
  unfolding calculatePeersToDownloadFrom_def
proof (rule select_peers_raises[of h])
  show "h \<in> set (Set_new (heads (changes s)))" using assms(1) by simp
  show "\<forall>e \<in> set (peerHeads_of (headPeers s)). h \<notin> set (snd e)"
  proof
    fix e assume e: "e \<in> set (peerHeads_of (headPeers s))"
    then have "map_of (peerHeads_of (headPeers s)) (fst e) = Some (snd e)"
      using peerHeads_of_wf(1)[of "headPeers s"] by simp
    then have "peer_heads (peerHeads_of (headPeers s)) (fst e) = set (snd e)"
      by (simp add: peer_heads_def Map_get_def)
    then have "attributedHeads (headPeers s) (fst e) = set (snd e)"
      by (simp add: peer_heads_peerHeads_of)
    with assms(2) show "h \<notin> set (snd e)" by blast
  qed
qed

section \<open>The snapshot of a batch\<close>

text \<open>
  On a syncer that holds sets of peer names a call of \<open>ingestChanges\<close> saves
  once: the state returned is the state with every summary of the batch applied,
  outcome and storage are those of one \<open>save\<close> of its snapshot, whether the save
  resolves or rejects, and every hash of the batch is a node afterwards.
\<close>

lemma addChange_nodes_keys:
  "fst ` set (nodes (snd (addChange g c))) = insert (hash c) (fst ` set (nodes g))"
proof (cases "Map_has (nodes g) (hash c)")
  case True
  then show ?thesis by (auto simp: addChange_exists Map_has_def)
next
  case False
  show ?thesis
  proof (cases "Set_has (missing g) (hash c)")
    case True
    with False show ?thesis by (simp add: addChange_missing)
  next
    case no: False
    with False show ?thesis by (simp add: addChange_new)
  qed
qed

lemma ingestBatch_nodes_keys:
  "fst ` set (nodes (changes (ingestBatch peer cs s))) =
     fst ` set (nodes (changes s)) \<union> hash ` set cs"
  unfolding ingestBatch_def
  by (induction cs arbitrary: s) (auto simp: ingestChange_changes addChange_nodes_keys)

lemma ingestChanges_sets_saves_once:
  assumes "ingestChanges storage peer cs (s, w) = (r, s', w')"
  shows "s' = ingestBatch peer cs s"
    and "(r, w') = save storage (JSON_stringify (pojo s')) w"
    and "\<forall>c \<in> set cs. Map_has (nodes (changes s')) (hash c)"
proof -
  show s': "s' = ingestBatch peer cs s" and "(r, w') = save storage (JSON_stringify (pojo s')) w"
    using assms by (auto simp: ingestChanges_def Let_def split: prod.splits)
  show "\<forall>c \<in> set cs. Map_has (nodes (changes s')) (hash c)"
    unfolding s' Map_has_def ingestBatch_nodes_keys by simp
qed

section \<open>Loaded syncers that hold sets\<close>

text \<open>
  On a syncer whose \<open>headPeers\<close> holds sets of peer names, the method never
  throws a \<open>TypeError\<close>, and state, snapshot and outcome are those of
  \<open>ingestChanges\<close> above.
\<close>

lemma map_values_Map_set:
  "map (\<lambda>(k, v). (k, f v)) (Map_set m k v) = Map_set (map (\<lambda>(k, v). (k, f v)) m) k (f v)"
  by (induction m) auto

lemma map_values_Map_delete:
  "map (\<lambda>(k, v). (k, f v)) (Map_delete m k) = Map_delete (map (\<lambda>(k, v). (k, f v)) m) k"
  by (induction m) (auto simp: Map_delete_def)

lemma map_values_fold_Map_delete:
  "map (\<lambda>(k, v). (k, f v)) (fold (\<lambda>r hp. Map_delete hp r) rs m) =
     fold (\<lambda>r hp. Map_delete hp r) rs (map (\<lambda>(k, v). (k, f v)) m)"
  by (induction rs arbitrary: m) (simp_all add: map_values_Map_delete)

lemma map_values_fold_Map_set:
  "map (\<lambda>(k, v). (k, f v)) (fold (\<lambda>e m. Map_set m (fst e) (snd e)) es m) =
     fold (\<lambda>e m. Map_set m (fst e) (snd e)) (map (\<lambda>(k, v). (k, f v)) es)
          (map (\<lambda>(k, v). (k, f v)) m)"
proof (induction es arbitrary: m)
  case Nil
  then show ?case by simp
next
  case (Cons e es)
  obtain k v where e: "e = (k, v)" by (cases e)
  show ?case by (simp add: e Cons.IH map_values_Map_set)
qed

lemma map_values_Map_new:
  "map (\<lambda>(k, v). (k, f v)) (Map_new es) = Map_new (map (\<lambda>(k, v). (k, f v)) es)"
  using map_values_fold_Map_set[of f es "[]"] by (simp add: Map_new_def)

lemma add_peer_loaded_sets:
  "add_peer_loaded (map (\<lambda>(k, v). (k, PeerSet v)) hp) h peer =
     Some (map (\<lambda>(k, v). (k, PeerSet v)) (add_peer hp h peer))"
proof (cases "map_of hp h")
  case None
  then have "map_of (map (\<lambda>(k, v). (k, PeerSet v)) hp) h = None"
    by (simp add: map_of_map)
  with None show ?thesis
    by (simp add: add_peer_loaded_def add_peer_def getOrDefault_def Map_get_def
          map_values_Map_set)
next
  case (Some ps)
  then have "map_of (map (\<lambda>(k, v). (k, PeerSet v)) hp) h = Some (PeerSet ps)"
    by (simp add: map_of_map)
  with Some show ?thesis
    by (simp add: add_peer_loaded_def add_peer_def getOrDefault_def Map_get_def
          map_values_Map_set)
qed

lemma ingestChange_loaded_sets:
  "ingestChange_loaded peer c (as_loaded s) = Inr (as_loaded (ingestChange peer c s))"
  by (simp add: ingestChange_loaded_def ingestChange_def as_loaded_def add_peer_loaded_sets
        map_values_fold_Map_delete
      split: prod.splits AddChangeResult.splits)

lemma ingestBatch_loaded_sets:
  "ingestBatch_loaded peer cs (as_loaded s) = Inr (as_loaded (ingestBatch peer cs s))"
  unfolding ingestBatch_def
  by (induction cs arbitrary: s) (simp_all add: ingestChange_loaded_sets)

lemma snapshot_loaded_sets: "snapshot_loaded (as_loaded s) = JSON_stringify (pojo s)"
proof -
  let ?es = "map (\<lambda>(k, v). (k, Names (Array_from v))) (headPeers s)"
  have e: "map (\<lambda>(k, v). (k, peers_json v)) (map (\<lambda>(k, v). (k, PeerSet v)) hp) =
           map (\<lambda>(k, v). (k, Names (Array_from v))) hp" for hp
    by (induction hp) (auto simp: peers_json_def)
  have m: "Map_new ?es = map (\<lambda>(k, v). (k, Names v)) (Map_new (map (\<lambda>(k, v). (k, Array_from v)) (headPeers s)))"
  proof -
    have "?es = map (\<lambda>(k, v). (k, Names v)) (map (\<lambda>(k, v). (k, Array_from v)) (headPeers s))"
      by (induction "headPeers s") auto
    then show ?thesis by (simp only: map_values_Map_new)
  qed
  have a: "list_all (\<lambda>e. is_Names (snd e)) (map (\<lambda>(k, v). (k, Names v)) xs)" for xs :: "(string \<times> string list) list"
    by (induction xs) auto
  have n: "map ((\<lambda>(k, v). (k, names v)) \<circ> (\<lambda>(k, v). (k, Names v))) xs = xs" for xs :: "(string \<times> string list) list"
    by (induction xs) auto
  have "loaded_headPeers (as_loaded s) = map (\<lambda>(k, v). (k, PeerSet v)) (headPeers s)"
    by (simp add: as_loaded_def)
  then have entries: "Map_new (map (\<lambda>(k, v). (k, peers_json v)) (loaded_headPeers (as_loaded s))) =
      map (\<lambda>(k, v). (k, Names v)) (Map_new (map (\<lambda>(k, v). (k, Array_from v)) (headPeers s)))"
    by (simp only: e m)
  show ?thesis
    unfolding snapshot_loaded_def Let_def entries
    by (simp add: a n JSON_stringify_def pojo_def as_loaded_def)
qed

lemma ingestChanges_loaded_sets:
  "ingestChanges_loaded storage peer cs (as_loaded s, w) =
     (case ingestChanges storage peer cs (s, w) of
        (Inl e, s1, w1) \<Rightarrow> (Inl (Rejected e), as_loaded s1, w1)
      | (Inr u, s1, w1) \<Rightarrow> (Inr u, as_loaded s1, w1))"
  by (simp add: ingestChanges_loaded_def ingestChanges_def ingestBatch_loaded_sets
        snapshot_loaded_sets Let_def split: prod.splits sum.splits)

text \<open>
  On a syncer that holds an array under a head, a batch that begins with a summary
  of that head throws before anything is saved.
\<close>

lemma ingestChanges_loaded_throws:
  assumes "Map_has (nodes (loaded_changes l)) (hash c)"
    and "Set_has (heads (loaded_changes l)) (hash c)"
    and "Map_get (loaded_headPeers l) (hash c) = Some (SetArray a)"
  shows "ingestChanges_loaded storage peer (c # cs) (l, w) = (Inl TypeError, l, w)"
  using assms
  by (simp add: ingestChanges_loaded_def ingestChange_loaded_def add_peer_loaded_def
        getOrDefault_def addChange_exists)

text \<open>
  C9. The claim is that every call of \<open>ingestChanges\<close> saves exactly once, after
  the whole batch has been applied. Peer \<open>p1\<close> reports the change \<open>a\<close> to an
  empty syncer, which saves its snapshot. \<open>init\<close> on that storage returns a
  syncer that holds an array under the head \<open>a\<close>. When peer \<open>p2\<close> reports
  \<open>a\<close> to this syncer, the call throws a \<open>TypeError\<close> at \<open>peers.add\<close>: the
  storage holds the one snapshot of the first call, and the second call has saved
  nothing.
\<close>

theorem reloaded_ingest_throws_before_save:
  "ingestChanges recording_storage ''p1'' [\<lparr>hash = ''a'', deps = []\<rparr>] (empty_syncer, [])
     = (Inr (),
        \<lparr>changes = \<lparr>nodes = [(''a'', [])], missing = [], heads = [''a'']\<rparr>,
         headPeers = [(''a'', [''p1''])]\<rparr>,
        [Json \<lparr>pojo_changes = \<lparr>pojo_nodes = [(''a'', [])], pojo_missing = [], pojo_heads = [''a'']\<rparr>,
               pojo_headPeers = [(''a'', [''p1''])]\<rparr>]) \<and>
   init recording_storage
        [Json \<lparr>pojo_changes = \<lparr>pojo_nodes = [(''a'', [])], pojo_missing = [], pojo_heads = [''a'']\<rparr>,
               pojo_headPeers = [(''a'', [''p1''])]\<rparr>]
     = (Inr \<lparr>loaded_changes = \<lparr>nodes = [(''a'', [])], missing = [], heads = [''a'']\<rparr>,
             loaded_headPeers = [(''a'', SetArray [[''p'', ''1'']])]\<rparr>,
        [Json \<lparr>pojo_changes = \<lparr>pojo_nodes = [(''a'', [])], pojo_missing = [], pojo_heads = [''a'']\<rparr>,
               pojo_headPeers = [(''a'', [''p1''])]\<rparr>]) \<and>
   ingestChanges_loaded recording_storage ''p2'' [\<lparr>hash = ''a'', deps = []\<rparr>]
        (\<lparr>loaded_changes = \<lparr>nodes = [(''a'', [])], missing = [], heads = [''a'']\<rparr>,
          loaded_headPeers = [(''a'', SetArray [[''p'', ''1'']])]\<rparr>,
         [Json \<lparr>pojo_changes = \<lparr>pojo_nodes = [(''a'', [])], pojo_missing = [], pojo_heads = [''a'']\<rparr>,
                pojo_headPeers = [(''a'', [''p1''])]\<rparr>])
     = (Inl TypeError,
        \<lparr>loaded_changes = \<lparr>nodes = [(''a'', [])], missing = [], heads = [''a'']\<rparr>,
         loaded_headPeers = [(''a'', SetArray [[''p'', ''1'']])]\<rparr>,
        [Json \<lparr>pojo_changes = \<lparr>pojo_nodes = [(''a'', [])], pojo_missing = [], pojo_heads = [''a'']\<rparr>,
               pojo_headPeers = [(''a'', [''p1''])]\<rparr>])"
proof -
  have s: "ingestChanges recording_storage ''p1'' [\<lparr>hash = ''a'', deps = []\<rparr>] (empty_syncer, [])
     = (Inr (),
        \<lparr>changes = \<lparr>nodes = [(''a'', [])], missing = [], heads = [''a'']\<rparr>,
         headPeers = [(''a'', [''p1''])]\<rparr>,
        [Json \<lparr>pojo_changes = \<lparr>pojo_nodes = [(''a'', [])], pojo_missing = [], pojo_heads = [''a'']\<rparr>,
               pojo_headPeers = [(''a'', [''p1''])]\<rparr>])"
    by (simp add: ingestChanges_def ingestChange_def ingestBatch_def recording_storage_def
        empty_syncer_def empty_graph_def addChange_def visit_dep_def add_peer_def getOrDefault_def
        Map_get_def Map_has_def Map_delete_def Map_new_def Array_from_def
        Set_new_def Set_add_def Set_has_def
        JSON_stringify_def pojo_def ChangeGraph_pojo_def Let_def)
  have l: "init recording_storage
        [Json \<lparr>pojo_changes = \<lparr>pojo_nodes = [(''a'', [])], pojo_missing = [], pojo_heads = [''a'']\<rparr>,
               pojo_headPeers = [(''a'', [''p1''])]\<rparr>]
     = (Inr \<lparr>loaded_changes = \<lparr>nodes = [(''a'', [])], missing = [], heads = [''a'']\<rparr>,
             loaded_headPeers = [(''a'', SetArray [[''p'', ''1'']])]\<rparr>,
        [Json \<lparr>pojo_changes = \<lparr>pojo_nodes = [(''a'', [])], pojo_missing = [], pojo_heads = [''a'']\<rparr>,
               pojo_headPeers = [(''a'', [''p1''])]\<rparr>])"
    by (simp add: init_def recording_storage_def ChangeGraph_new_def
        Map_new_def Set_of_string_def Set_new_def Set_add_def Set_has_def Let_def)
  have t: "ingestChanges_loaded recording_storage ''p2'' [\<lparr>hash = ''a'', deps = []\<rparr>]
        (\<lparr>loaded_changes = \<lparr>nodes = [(''a'', [])], missing = [], heads = [''a'']\<rparr>,
          loaded_headPeers = [(''a'', SetArray [[''p'', ''1'']])]\<rparr>,
         [Json \<lparr>pojo_changes = \<lparr>pojo_nodes = [(''a'', [])], pojo_missing = [], pojo_heads = [''a'']\<rparr>,
                pojo_headPeers = [(''a'', [''p1''])]\<rparr>])
     = (Inl TypeError,
        \<lparr>loaded_changes = \<lparr>nodes = [(''a'', [])], missing = [], heads = [''a'']\<rparr>,
         loaded_headPeers = [(''a'', SetArray [[''p'', ''1'']])]\<rparr>,
        [Json \<lparr>pojo_changes = \<lparr>pojo_nodes = [(''a'', [])], pojo_missing = [], pojo_heads = [''a'']\<rparr>,
               pojo_headPeers = [(''a'', [''p1''])]\<rparr>])"
    by (simp add: ingestChanges_loaded_def ingestChange_loaded_def add_peer_loaded_def
        getOrDefault_def addChange_def Map_get_def Map_has_def Set_has_def)
  from s l t show ?thesis by (intro conjI)
qed

end
